theory Spec2Isabelle
  imports Main
begin

section \<open>Strings and symbols\<close>

text \<open>
  The program (\<^verbatim>\<open>app.js\<close>) converts hiragana text through a dictionary. It always
  works on \<^verbatim>\<open>Array.from(s)\<close>, the sequence of Unicode code points of a string, so a
  string is modelled as the list of its code points and a symbol as a code point number.
  A one-symbol string, as \<^verbatim>\<open>Array.from\<close> yields them, is the list \<open>[ch]\<close>; the string
  concatenation \<^verbatim>\<open>k0 + k1\<close> of two of them is \<open>[k0, k1]\<close>.
\<close>

type_synonym symbol = nat
type_synonym jsstring = "symbol list"

abbreviation TAB :: symbol where "TAB \<equiv> 9"
abbreviation LF :: symbol where "LF \<equiv> 10"
abbreviation CR :: symbol where "CR \<equiv> 13"
abbreviation SPACE :: symbol where "SPACE \<equiv> 32"
abbreviation HASH :: symbol where "HASH \<equiv> 35"

text \<open>\<^verbatim>\<open>HIRAGANA_RE.test(k)\<close> for a one-symbol \<open>k\<close>: the code point lies in U+3041..U+3096.\<close>

definition HIRAGANA_RE_test :: "symbol \<Rightarrow> bool" where
  "HIRAGANA_RE_test k = (0x3041 \<le> k \<and> k \<le> 0x3096)"

definition isWhitespace :: "symbol \<Rightarrow> bool" where
  "isWhitespace ch = (ch = LF \<or> ch = CR \<or> ch = TAB \<or> ch = SPACE)"

text \<open>
  \<^verbatim>\<open>String.prototype.normalize('NFC')\<close> belongs to the JavaScript runtime, not to the
  program. Every function that calls it takes the normalisation as its first argument
  \<open>nfc\<close>, and what is proved holds for every such function. Where a concrete text is
  evaluated, the text is built from ASCII and from code points of the hiragana block
  only; such a text is already in normalisation form C, so the runtime returns it
  unchanged, which is what \<open>nfc_stable\<close> does.
\<close>

definition nfc_stable :: "jsstring \<Rightarrow> jsstring" where
  "nfc_stable s = s"

section \<open>The dictionary\<close>

subsection \<open>Runtime string operations used by the parser\<close>

text \<open>
  \<^verbatim>\<open>trim\<close> and \<^verbatim>\<open>trimEnd\<close> strip the code points that ECMAScript calls WhiteSpace or
  LineTerminator.
\<close>

definition js_space :: "symbol \<Rightarrow> bool" where
  "js_space c =
     (c = 0x9 \<or> c = 0xA \<or> c = 0xB \<or> c = 0xC \<or> c = 0xD \<or> c = 0x20 \<or> c = 0xA0
      \<or> c = 0x1680 \<or> (0x2000 \<le> c \<and> c \<le> 0x200A) \<or> c = 0x2028 \<or> c = 0x2029
      \<or> c = 0x202F \<or> c = 0x205F \<or> c = 0x3000 \<or> c = 0xFEFF)"

definition trimStart :: "jsstring \<Rightarrow> jsstring" where
  "trimStart s = dropWhile js_space s"

definition trimEnd :: "jsstring \<Rightarrow> jsstring" where
  "trimEnd s = rev (dropWhile js_space (rev s))"

definition trim :: "jsstring \<Rightarrow> jsstring" where
  "trim s = trimEnd (trimStart s)"

text \<open>\<^verbatim>\<open>s.indexOf(c)\<close> for a one-symbol \<open>c\<close>: the first position, or \<open>-1\<close>.\<close>

definition indexOf :: "jsstring \<Rightarrow> symbol \<Rightarrow> int" where
  "indexOf s c = (if c \<in> set s then int (length (takeWhile (\<lambda>x. x \<noteq> c) s)) else - 1)"

text \<open>\<^verbatim>\<open>s.slice(a, b)\<close> and \<^verbatim>\<open>s.slice(a)\<close> for arguments that are not negative.\<close>

definition slice :: "jsstring \<Rightarrow> int \<Rightarrow> int \<Rightarrow> jsstring" where
  "slice s a b = drop (nat a) (take (nat b) s)"

definition slice_from :: "jsstring \<Rightarrow> int \<Rightarrow> jsstring" where
  "slice_from s a = drop (nat a) s"

definition startsWith :: "jsstring \<Rightarrow> symbol \<Rightarrow> bool" where
  "startsWith s c = (case s of [] \<Rightarrow> False | x # _ \<Rightarrow> x = c)"

text \<open>
  \<^verbatim>\<open>text.split(/\r?\n/)\<close>: the text is cut at every line feed, and a carriage return
  right before the line feed belongs to the separator.
\<close>

fun cons_first :: "symbol \<Rightarrow> jsstring list \<Rightarrow> jsstring list" where
  "cons_first c [] = [[c]]"
| "cons_first c (l # ls) = (c # l) # ls"

fun split_lines :: "jsstring \<Rightarrow> jsstring list" where
  "split_lines [] = [[]]"
| "split_lines [c] = (if c = LF then [[], []] else [[c]])"
| "split_lines (c # d # cs) =
     (if c = LF then [] # split_lines (d # cs)
      else if c = CR \<and> d = LF then [] # split_lines cs
      else cons_first c (split_lines (d # cs)))"

subsection \<open>parseDictTsv\<close>

record dict =
  map1 :: "jsstring \<rightharpoonup> jsstring"
  map2 :: "jsstring \<rightharpoonup> jsstring"

definition empty_dict :: dict where
  "empty_dict = \<lparr>map1 = Map.empty, map2 = Map.empty\<rparr>"

text \<open>The body of the loop \<^verbatim>\<open>for (const raw of lines)\<close>; \<^verbatim>\<open>continue\<close> leaves the maps as they are.\<close>

definition parse_line :: "(jsstring \<Rightarrow> jsstring) \<Rightarrow> jsstring \<Rightarrow> dict \<Rightarrow> dict" where
  "parse_line nfc raw d =
     (let line = trimEnd raw in
      if line = [] \<or> startsWith line HASH then d
      else
        let tab = indexOf line TAB in
        if tab < 0 then d
        else
          let keyRaw = trim (slice line 0 tab);
              val = slice_from line (tab + 1);
              key = nfc keyRaw;
              chars = key
          in
            if length chars = 1 then
              (let k = chars ! 0 in
               if HIRAGANA_RE_test k then d\<lparr>map1 := (map1 d)([k] \<mapsto> val)\<rparr> else d)
            else if length chars = 2 then
              (let k0 = chars ! 0; k1 = chars ! 1 in
               if HIRAGANA_RE_test k0 \<and> HIRAGANA_RE_test k1
               then d\<lparr>map2 := (map2 d)([k0, k1] \<mapsto> val)\<rparr> else d)
            else d)"

definition parseDictTsv :: "(jsstring \<Rightarrow> jsstring) \<Rightarrow> jsstring \<Rightarrow> dict" where
  "parseDictTsv nfc text = fold (parse_line nfc) (split_lines text) empty_dict"

section \<open>Conversion\<close>

record conv_result =
  out :: jsstring
  skipped :: "symbol set"

text \<open>
  The loop \<^verbatim>\<open>for (let i = 0; i < chars.length; )\<close> of the first \<^verbatim>\<open>convert\<close>
  (two-symbol longest match; the returned object is \<^verbatim>\<open>{ out, skipped }\<close>).
\<close>

function convert_loop :: "symbol list \<Rightarrow> dict \<Rightarrow> nat \<Rightarrow> conv_result \<Rightarrow> conv_result" where
  "convert_loop chars dict i st =
     (if i < length chars then
        (let ch = chars ! i in
         if isWhitespace ch then convert_loop chars dict (i + 1) (st\<lparr>out := out st @ [ch]\<rparr>)
         else if \<not> HIRAGANA_RE_test ch
           then convert_loop chars dict (i + 1) (st\<lparr>skipped := insert ch (skipped st)\<rparr>)
         else
           (case (if i + 1 < length chars \<and> HIRAGANA_RE_test (chars ! (i + 1))
                  then map2 dict [ch, chars ! (i + 1)] else None) of
              Some v2 \<Rightarrow> convert_loop chars dict (i + 2) (st\<lparr>out := out st @ v2\<rparr>)
            | None \<Rightarrow>
               (case map1 dict [ch] of
                  Some v1 \<Rightarrow> convert_loop chars dict (i + 1) (st\<lparr>out := out st @ v1\<rparr>)
                | None \<Rightarrow> convert_loop chars dict (i + 1) (st\<lparr>skipped := insert ch (skipped st)\<rparr>))))
      else st)"
  by pat_completeness auto
termination
  by (relation "measure (\<lambda>(chars, dict, i, st). length chars - i)") auto

declare convert_loop.simps [simp del]

definition convert :: "(jsstring \<Rightarrow> jsstring) \<Rightarrow> jsstring \<Rightarrow> dict \<Rightarrow> conv_result" where
  "convert nfc src dict =
     (let s = nfc src; chars = s in
      convert_loop chars dict 0 \<lparr>out = [], skipped = {}\<rparr>)"

text \<open>
  The second \<^verbatim>\<open>convert\<close> of the source: a symbol that is neither whitespace nor
  hiragana is passed over without \<^verbatim>\<open>skipped.add\<close>.
\<close>

function convert2_loop :: "symbol list \<Rightarrow> dict \<Rightarrow> nat \<Rightarrow> conv_result \<Rightarrow> conv_result" where
  "convert2_loop chars dict i st =
     (if i < length chars then
        (let ch = chars ! i in
         if isWhitespace ch then convert2_loop chars dict (i + 1) (st\<lparr>out := out st @ [ch]\<rparr>)
         else if \<not> HIRAGANA_RE_test ch then convert2_loop chars dict (i + 1) st
         else
           (case (if i + 1 < length chars \<and> HIRAGANA_RE_test (chars ! (i + 1))
                  then map2 dict [ch, chars ! (i + 1)] else None) of
              Some v2 \<Rightarrow> convert2_loop chars dict (i + 2) (st\<lparr>out := out st @ v2\<rparr>)
            | None \<Rightarrow>
               (case map1 dict [ch] of
                  Some v1 \<Rightarrow> convert2_loop chars dict (i + 1) (st\<lparr>out := out st @ v1\<rparr>)
                | None \<Rightarrow> convert2_loop chars dict (i + 1) (st\<lparr>skipped := insert ch (skipped st)\<rparr>))))
      else st)"
  by pat_completeness auto
termination
  by (relation "measure (\<lambda>(chars, dict, i, st). length chars - i)") auto

declare convert2_loop.simps [simp del]

definition convert2 :: "(jsstring \<Rightarrow> jsstring) \<Rightarrow> jsstring \<Rightarrow> dict \<Rightarrow> conv_result" where
  "convert2 nfc src dict =
     (let s = nfc src; chars = s in
      convert2_loop chars dict 0 \<lparr>out = [], skipped = {}\<rparr>)"

section \<open>Highlighting\<close>

text \<open>The strings \<^verbatim>\<open>'good'\<close>, \<^verbatim>\<open>'space'\<close> and \<^verbatim>\<open>'bad'\<close> stored in the array \<^verbatim>\<open>mark\<close>.\<close>

datatype mark = Good | Space | Bad

text \<open>The first loop of \<^verbatim>\<open>buildHighlightHtml\<close>; \<^verbatim>\<open>mark[i] = m\<close> is a list update.\<close>

function mark_loop :: "symbol list \<Rightarrow> dict \<Rightarrow> nat \<Rightarrow> mark list \<Rightarrow> mark list" where
  "mark_loop chars dict i mark =
     (if i < length chars then
        (let ch = chars ! i in
         if isWhitespace ch then mark_loop chars dict (i + 1) (mark[i := Space])
         else if \<not> HIRAGANA_RE_test ch then mark_loop chars dict (i + 1) (mark[i := Bad])
         else if i + 1 < length chars \<and> HIRAGANA_RE_test (chars ! (i + 1))
                 \<and> map2 dict [ch, chars ! (i + 1)] \<noteq> None
           then mark_loop chars dict (i + 2) (mark[i := Good, i + 1 := Good])
         else mark_loop chars dict (i + 1)
                (mark[i := (if map1 dict [ch] \<noteq> None then Good else Bad)]))
      else mark)"
  by pat_completeness auto
termination
  by (relation "measure (\<lambda>(chars, dict, i, mark). length chars - i)") auto

declare mark_loop.simps [simp del]

definition highlight_marks :: "(jsstring \<Rightarrow> jsstring) \<Rightarrow> jsstring \<Rightarrow> dict \<Rightarrow> mark list" where
  "highlight_marks nfc src dict =
     (let s = nfc src; chars = s in
      mark_loop chars dict 0 (replicate (length chars) Good))"

definition ascii :: "string \<Rightarrow> jsstring" where
  "ascii s = map of_char s"

text \<open>\<^verbatim>\<open>s.replaceAll(c, r)\<close> for a one-symbol pattern \<open>c\<close>.\<close>

definition replaceAll :: "jsstring \<Rightarrow> symbol \<Rightarrow> jsstring \<Rightarrow> jsstring" where
  "replaceAll s c r = concat (map (\<lambda>x. if x = c then r else [x]) s)"

definition escapeHtml :: "jsstring \<Rightarrow> jsstring" where
  "escapeHtml s =
     replaceAll (replaceAll (replaceAll (replaceAll (replaceAll s
       38 (ascii ''&amp;'')) 60 (ascii ''&lt;'')) 62 (ascii ''&gt;''))
       34 (ascii ''&quot;'')) 39 (ascii ''&#39;'')"

text \<open>The second loop of \<^verbatim>\<open>buildHighlightHtml\<close>: only a \<^verbatim>\<open>'bad'\<close> position gets a span.\<close>

definition render_html :: "symbol list \<Rightarrow> mark list \<Rightarrow> jsstring" where
  "render_html chars mark =
     concat (map (\<lambda>i.
        let ch = chars ! i;
            esc = escapeHtml (if ch = TAB then [SPACE, SPACE, SPACE, SPACE] else [ch])
        in if mark ! i = Bad
           then ascii ''<span class='' @ [34] @ ascii ''bad'' @ [34] @ ascii ''>'' @ esc
                @ ascii ''</span>''
           else esc) [0..<length chars])"

definition buildHighlightHtml :: "(jsstring \<Rightarrow> jsstring) \<Rightarrow> jsstring \<Rightarrow> dict \<Rightarrow> jsstring" where
  "buildHighlightHtml nfc src dict =
     (let s = nfc src; chars = s in
      render_html chars (mark_loop chars dict 0 (replicate (length chars) Good)))"

section \<open>The decisions of convert, position by position\<close>

text \<open>
  \<^verbatim>\<open>convert\<close> returns the output and the skipped set only. To speak about what it
  decided at each position, \<open>convert_loop_traced\<close> is the same loop with one more
  variable that the program does not have: to \<open>tr\<close> it appends, for every position
  the iteration consumes, which branch consumed it.
\<close>

datatype decision =
    Copied      \<comment> \<open>whitespace, appended to \<^verbatim>\<open>out\<close>\<close>
  | Looked_up   \<comment> \<open>consumed by a successful \<^verbatim>\<open>map2.get\<close> or \<^verbatim>\<open>map1.get\<close>\<close>
  | Recorded    \<comment> \<open>passed to \<^verbatim>\<open>skipped.add\<close>\<close>

function convert_loop_traced ::
  "symbol list \<Rightarrow> dict \<Rightarrow> nat \<Rightarrow> conv_result \<Rightarrow> decision list \<Rightarrow> conv_result \<times> decision list"
where
  "convert_loop_traced chars dict i st tr =
     (if i < length chars then
        (let ch = chars ! i in
         if isWhitespace ch
           then convert_loop_traced chars dict (i + 1) (st\<lparr>out := out st @ [ch]\<rparr>) (tr @ [Copied])
         else if \<not> HIRAGANA_RE_test ch
           then convert_loop_traced chars dict (i + 1) (st\<lparr>skipped := insert ch (skipped st)\<rparr>)
                  (tr @ [Recorded])
         else
           (case (if i + 1 < length chars \<and> HIRAGANA_RE_test (chars ! (i + 1))
                  then map2 dict [ch, chars ! (i + 1)] else None) of
              Some v2 \<Rightarrow>
                convert_loop_traced chars dict (i + 2) (st\<lparr>out := out st @ v2\<rparr>)
                  (tr @ [Looked_up, Looked_up])
            | None \<Rightarrow>
               (case map1 dict [ch] of
                  Some v1 \<Rightarrow>
                    convert_loop_traced chars dict (i + 1) (st\<lparr>out := out st @ v1\<rparr>)
                      (tr @ [Looked_up])
                | None \<Rightarrow>
                    convert_loop_traced chars dict (i + 1)
                      (st\<lparr>skipped := insert ch (skipped st)\<rparr>) (tr @ [Recorded]))))
      else (st, tr))"
  by pat_completeness auto
termination
  by (relation "measure (\<lambda>(chars, dict, i, st, tr). length chars - i)") auto

declare convert_loop_traced.simps [simp del]

definition convert_traced ::
  "(jsstring \<Rightarrow> jsstring) \<Rightarrow> jsstring \<Rightarrow> dict \<Rightarrow> conv_result \<times> decision list" where
  "convert_traced nfc src dict =
     (let s = nfc src; chars = s in
      convert_loop_traced chars dict 0 \<lparr>out = [], skipped = {}\<rparr> [])"

text \<open>The tag that the highlighting is expected to give a position with that decision.\<close>

fun tag_of :: "decision \<Rightarrow> mark" where
  "tag_of Copied = Space"
| "tag_of Looked_up = Good"
| "tag_of Recorded = Bad"

section \<open>The scan as a recursion over the symbols not yet consumed\<close>

text \<open>
  \<open>scan dict cs\<close> is what the loop of \<^verbatim>\<open>convert\<close> adds to \<^verbatim>\<open>out\<close> and to
  \<^verbatim>\<open>skipped\<close> when \<open>cs\<close> are the symbols from the cursor on. It is a device of the
  proofs: lemma \<open>convert_loop_scan\<close> below shows that the loop computes it.
\<close>

definition combine :: "conv_result \<Rightarrow> conv_result \<Rightarrow> conv_result" where
  "combine a b = \<lparr>out = out a @ out b, skipped = skipped a \<union> skipped b\<rparr>"

fun scan :: "dict \<Rightarrow> symbol list \<Rightarrow> conv_result" where
  "scan dict [] = \<lparr>out = [], skipped = {}\<rparr>"
| "scan dict [ch] =
     (if isWhitespace ch then \<lparr>out = [ch], skipped = {}\<rparr>
      else if \<not> HIRAGANA_RE_test ch then \<lparr>out = [], skipped = {ch}\<rparr>
      else (case map1 dict [ch] of
              Some v1 \<Rightarrow> \<lparr>out = v1, skipped = {}\<rparr>
            | None \<Rightarrow> \<lparr>out = [], skipped = {ch}\<rparr>))"
| "scan dict (ch # nx # cs) =
     (if isWhitespace ch then combine \<lparr>out = [ch], skipped = {}\<rparr> (scan dict (nx # cs))
      else if \<not> HIRAGANA_RE_test ch then combine \<lparr>out = [], skipped = {ch}\<rparr> (scan dict (nx # cs))
      else (case (if HIRAGANA_RE_test nx then map2 dict [ch, nx] else None) of
              Some v2 \<Rightarrow> combine \<lparr>out = v2, skipped = {}\<rparr> (scan dict cs)
            | None \<Rightarrow>
               (case map1 dict [ch] of
                  Some v1 \<Rightarrow> combine \<lparr>out = v1, skipped = {}\<rparr> (scan dict (nx # cs))
                | None \<Rightarrow> combine \<lparr>out = [], skipped = {ch}\<rparr> (scan dict (nx # cs)))))"

text \<open>The two-symbol lookup of the loops at cursor \<open>i\<close>, with its guard.\<close>

definition pair_hit :: "symbol list \<Rightarrow> dict \<Rightarrow> nat \<Rightarrow> jsstring option" where
  "pair_hit chars d i =
     (if i + 1 < length chars \<and> HIRAGANA_RE_test (chars ! (i + 1))
      then map2 d [chars ! i, chars ! (i + 1)] else None)"

text \<open>A result with the symbols outside the hiragana block removed from \<open>skipped\<close>.\<close>

definition kana_part :: "conv_result \<Rightarrow> conv_result" where
  "kana_part r = r\<lparr>skipped := {c \<in> skipped r. HIRAGANA_RE_test c}\<rparr>"

text \<open>
  The symbols at the positions from \<open>i\<close> on that the decisions \<open>tr\<close> give as
  recorded.
\<close>

definition recorded_from :: "symbol list \<Rightarrow> decision list \<Rightarrow> nat \<Rightarrow> symbol set" where
  "recorded_from chars tr i = {chars ! j | j. i \<le> j \<and> j < length chars \<and> tr ! j = Recorded}"

text \<open>The invariant of a dictionary: the keys of both maps are hiragana, one and two symbols long.\<close>

definition table_ok :: "dict \<Rightarrow> bool" where
  "table_ok d =
     ((\<forall>key \<in> dom (map1 d). \<exists>k. key = [k] \<and> HIRAGANA_RE_test k)
      \<and> (\<forall>key \<in> dom (map2 d). \<exists>k0 k1. key = [k0, k1] \<and> HIRAGANA_RE_test k0 \<and> HIRAGANA_RE_test k1))"

section \<open>Lemmas about the loops\<close>

lemma combine_assoc: "combine (combine a b) c = combine a (combine b c)"
  by (simp add: combine_def Un_assoc)

lemma combine_empty_right [simp]: "combine a \<lparr>out = [], skipped = {}\<rparr> = a"
  by (simp add: combine_def)

lemma combine_empty_left [simp]: "combine \<lparr>out = [], skipped = {}\<rparr> a = a"
  by (simp add: combine_def)

lemma combine_out_step: "st\<lparr>out := out st @ v\<rparr> = combine st \<lparr>out = v, skipped = {}\<rparr>"
  by (simp add: combine_def)

lemma combine_skip_step:
  "st\<lparr>skipped := insert c (skipped st)\<rparr> = combine st \<lparr>out = [], skipped = {c}\<rparr>"
  by (simp add: combine_def)

lemma drop_two: "i + 1 < length xs \<Longrightarrow> drop i xs = xs ! i # xs ! (i + 1) # drop (i + 2) xs"
  by (metis Cons_nth_drop_Suc Suc_eq_plus1 add_2_eq_Suc' add_lessD1)

lemma drop_last_one: "i < length xs \<Longrightarrow> \<not> i + 1 < length xs \<Longrightarrow> drop i xs = [xs ! i]"
  by (metis Cons_nth_drop_Suc Suc_eq_plus1 drop_all not_less)

lemma convert_loop_scan:
  "convert_loop chars d i st = combine st (scan d (drop i chars))"
proof (induction chars d i st rule: convert_loop.induct)
  case (1 chars dict i st)
  show ?case
  proof (cases "i < length chars")
    case False
    then show ?thesis by (subst convert_loop.simps) simp
  next
    case True
    note lt = True
    show ?thesis
    proof (cases "i + 1 < length chars")
      case True
      have d: "drop i chars = chars ! i # chars ! (i + 1) # drop (i + 2) chars"
        using True by (rule drop_two)
      have d1: "drop (Suc i) chars = chars ! Suc i # drop (Suc (Suc i)) chars"
        using True by (simp add: Cons_nth_drop_Suc)
      show ?thesis
        apply (subst convert_loop.simps)
        apply (subst d)
        using "1.IH" lt True
        apply (simp add: Let_def d1 combine_assoc combine_out_step combine_skip_step
            split: option.splits)
        done
    next
      case False
      have d: "drop i chars = [chars ! i]" using lt False by (rule drop_last_one)
      have d1: "drop (i + 1) chars = []" using False by simp
      show ?thesis
        apply (subst convert_loop.simps)
        apply (subst d)
        using "1.IH" lt False
        apply (simp add: Let_def d1 combine_out_step combine_skip_step
            split: option.splits)
        done
    qed
  qed
qed

lemma scan_boundary:
  "\<not> HIRAGANA_RE_test c \<Longrightarrow> scan d (xs @ c # ys) = combine (scan d xs) (scan d (c # ys))"
proof (induction d xs rule: scan.induct)
  case (1 dict)
  show ?case by simp
next
  case (2 dict ch)
  then show ?case
    by (simp add: combine_def split: option.splits)
next
  case (3 dict ch nx cs)
  then show ?case
    by (simp add: combine_assoc split: option.splits)
qed

lemma scan_nonkana_head:
  "\<not> HIRAGANA_RE_test c \<Longrightarrow> scan d (c # ys) = combine (scan d [c]) (scan d ys)"
  by (cases ys) (simp_all add: combine_def)

lemma convert_loop_traced_fst:
  "fst (convert_loop_traced chars d i st tr) = convert_loop chars d i st"
proof (induction chars d i st tr rule: convert_loop_traced.induct)
  case (1 chars dict i st tr)
  show ?case
    apply (subst convert_loop_traced.simps)
    apply (subst convert_loop.simps)
    using "1.IH"
    apply (simp add: Let_def split: option.splits)
    done
qed

lemma replicate_Good_step:
  "i < n \<Longrightarrow> replicate (n - i) Good = Good # replicate (n - (i + 1)) Good"
  by (metis Suc_diff_Suc Suc_eq_plus1 replicate_Suc)

lemma mark_update_one:
  "length ms = i \<Longrightarrow> i < n \<Longrightarrow>
   (ms @ replicate (n - i) Good)[i := m] = (ms @ [m]) @ replicate (n - (i + 1)) Good"
  by (simp add: replicate_Good_step [of i n] list_update_append)

lemma mark_update_two:
  assumes "length ms = i" "i + 1 < n"
  shows "(ms @ replicate (n - i) Good)[i := Good, i + 1 := Good]
           = (ms @ [Good, Good]) @ replicate (n - (i + 2)) Good"
proof -
  have "(ms @ replicate (n - i) Good)[i := Good] = (ms @ [Good]) @ replicate (n - (i + 1)) Good"
    using assms by (intro mark_update_one) simp_all
  moreover have "((ms @ [Good]) @ replicate (n - (i + 1)) Good)[i + 1 := Good]
      = ((ms @ [Good]) @ [Good]) @ replicate (n - (i + 1 + 1)) Good"
    using assms by (intro mark_update_one) simp_all
  ultimately show ?thesis by (simp add: numeral_2_eq_2)
qed

lemma hiragana_not_ws: "HIRAGANA_RE_test c \<Longrightarrow> \<not> isWhitespace c"
  by (auto simp: HIRAGANA_RE_test_def isWhitespace_def)

lemma mark_loop_end: "\<not> i < length chars \<Longrightarrow> mark_loop chars d i M = M"
  by (subst mark_loop.simps) simp

lemma mark_loop_ws:
  "i < length chars \<Longrightarrow> isWhitespace (chars ! i) \<Longrightarrow>
   mark_loop chars d i M = mark_loop chars d (i + 1) (M[i := Space])"
  by (subst mark_loop.simps) (simp add: Let_def)

lemma mark_loop_nonkana:
  "i < length chars \<Longrightarrow> \<not> isWhitespace (chars ! i) \<Longrightarrow> \<not> HIRAGANA_RE_test (chars ! i) \<Longrightarrow>
   mark_loop chars d i M = mark_loop chars d (i + 1) (M[i := Bad])"
  by (subst mark_loop.simps) (simp add: Let_def)

lemma mark_loop_pair:
  "i < length chars \<Longrightarrow> HIRAGANA_RE_test (chars ! i) \<Longrightarrow> pair_hit chars d i = Some v2 \<Longrightarrow>
   mark_loop chars d i M = mark_loop chars d (i + 2) (M[i := Good, i + 1 := Good])"
  by (subst mark_loop.simps)
     (auto simp add: Let_def pair_hit_def hiragana_not_ws split: if_splits)

lemma mark_loop_single:
  "i < length chars \<Longrightarrow> HIRAGANA_RE_test (chars ! i) \<Longrightarrow> pair_hit chars d i = None \<Longrightarrow>
   mark_loop chars d i M
     = mark_loop chars d (i + 1) (M[i := (if map1 d [chars ! i] \<noteq> None then Good else Bad)])"
  by (subst mark_loop.simps)
     (auto simp add: Let_def pair_hit_def hiragana_not_ws split: if_splits)

lemma traced_end: "\<not> i < length chars \<Longrightarrow> convert_loop_traced chars d i st tr = (st, tr)"
  by (subst convert_loop_traced.simps) simp

lemma traced_ws:
  "i < length chars \<Longrightarrow> isWhitespace (chars ! i) \<Longrightarrow>
   convert_loop_traced chars d i st tr
     = convert_loop_traced chars d (i + 1) (st\<lparr>out := out st @ [chars ! i]\<rparr>) (tr @ [Copied])"
  by (subst convert_loop_traced.simps) (simp add: Let_def)

lemma traced_nonkana:
  "i < length chars \<Longrightarrow> \<not> isWhitespace (chars ! i) \<Longrightarrow> \<not> HIRAGANA_RE_test (chars ! i) \<Longrightarrow>
   convert_loop_traced chars d i st tr
     = convert_loop_traced chars d (i + 1) (st\<lparr>skipped := insert (chars ! i) (skipped st)\<rparr>)
         (tr @ [Recorded])"
  by (subst convert_loop_traced.simps) (simp add: Let_def)

lemma traced_pair:
  "i < length chars \<Longrightarrow> HIRAGANA_RE_test (chars ! i) \<Longrightarrow> pair_hit chars d i = Some v2 \<Longrightarrow>
   convert_loop_traced chars d i st tr
     = convert_loop_traced chars d (i + 2) (st\<lparr>out := out st @ v2\<rparr>) (tr @ [Looked_up, Looked_up])"
  by (subst convert_loop_traced.simps)
     (simp add: Let_def pair_hit_def hiragana_not_ws)

lemma traced_single:
  "i < length chars \<Longrightarrow> HIRAGANA_RE_test (chars ! i) \<Longrightarrow> pair_hit chars d i = None \<Longrightarrow>
   map1 d [chars ! i] = Some v1 \<Longrightarrow>
   convert_loop_traced chars d i st tr
     = convert_loop_traced chars d (i + 1) (st\<lparr>out := out st @ v1\<rparr>) (tr @ [Looked_up])"
  by (subst convert_loop_traced.simps)
     (simp add: Let_def pair_hit_def hiragana_not_ws)

lemma traced_unknown:
  "i < length chars \<Longrightarrow> HIRAGANA_RE_test (chars ! i) \<Longrightarrow> pair_hit chars d i = None \<Longrightarrow>
   map1 d [chars ! i] = None \<Longrightarrow>
   convert_loop_traced chars d i st tr
     = convert_loop_traced chars d (i + 1) (st\<lparr>skipped := insert (chars ! i) (skipped st)\<rparr>)
         (tr @ [Recorded])"
  by (subst convert_loop_traced.simps)
     (simp add: Let_def pair_hit_def hiragana_not_ws)

lemma mark_loop_trace:
  "length tr = i \<Longrightarrow> i \<le> length chars \<Longrightarrow>
   mark_loop chars d i (map tag_of tr @ replicate (length chars - i) Good)
     = map tag_of (snd (convert_loop_traced chars d i st tr))"
proof (induction "length chars - i" arbitrary: i st tr rule: less_induct)
  case less
  let ?n = "length chars"
  let ?M = "map tag_of tr @ replicate (?n - i) Good"
  show ?case
  proof (cases "i < ?n")
    case False
    with less.prems show ?thesis
      by (simp add: mark_loop_end traced_end)
  next
    case True
    let ?ch = "chars ! i"
    have one: "mark_loop chars d (i + 1) (?M[i := m])
          = map tag_of (snd (convert_loop_traced chars d (i + 1) st' (tr @ [dc])))"
      if t: "tag_of dc = m" for m dc st'
    proof -
      have "?M[i := m] = map tag_of (tr @ [dc]) @ replicate (?n - (i + 1)) Good"
        using mark_update_one [of "map tag_of tr" i ?n m] less.prems True t by simp
      moreover have "mark_loop chars d (i + 1)
            (map tag_of (tr @ [dc]) @ replicate (?n - (i + 1)) Good)
          = map tag_of (snd (convert_loop_traced chars d (i + 1) st' (tr @ [dc])))"
      proof (rule less.hyps)
        show "?n - (i + 1) < ?n - i" using True by simp
        show "length (tr @ [dc]) = i + 1" using less.prems by simp
        show "i + 1 \<le> ?n" using True by simp
      qed
      ultimately show ?thesis by simp
    qed
    have two: "mark_loop chars d (i + 2) (?M[i := Good, i + 1 := Good])
          = map tag_of (snd (convert_loop_traced chars d (i + 2) st' (tr @ [Looked_up, Looked_up])))"
      if a: "i + 1 < ?n" for st'
    proof -
      have "?M[i := Good, i + 1 := Good]
          = map tag_of (tr @ [Looked_up, Looked_up]) @ replicate (?n - (i + 2)) Good"
        using mark_update_two [of "map tag_of tr" i ?n] less.prems a by simp
      moreover have "mark_loop chars d (i + 2)
            (map tag_of (tr @ [Looked_up, Looked_up]) @ replicate (?n - (i + 2)) Good)
          = map tag_of (snd (convert_loop_traced chars d (i + 2) st' (tr @ [Looked_up, Looked_up])))"
      proof (rule less.hyps)
        show "?n - (i + 2) < ?n - i" using a by simp
        show "length (tr @ [Looked_up, Looked_up]) = i + 2" using less.prems by simp
        show "i + 2 \<le> ?n" using a by simp
      qed
      ultimately show ?thesis by simp
    qed
    show ?thesis
    proof (cases "isWhitespace ?ch")
      case True
      show ?thesis
        by (simp only: mark_loop_ws [OF \<open>i < ?n\<close> True] traced_ws [OF \<open>i < ?n\<close> True]
              one [of Copied Space] tag_of.simps)
    next
      case nws: False
      show ?thesis
      proof (cases "HIRAGANA_RE_test ?ch")
        case False
        show ?thesis
          by (simp only: mark_loop_nonkana [OF \<open>i < ?n\<close> nws False]
                traced_nonkana [OF \<open>i < ?n\<close> nws False] one [of Recorded Bad] tag_of.simps)
      next
        case kana: True
        show ?thesis
        proof (cases "pair_hit chars d i")
          case (Some v2)
          then have "i + 1 < ?n" by (simp add: pair_hit_def split: if_splits)
          then show ?thesis
            by (simp only: mark_loop_pair [OF \<open>i < ?n\<close> kana Some]
                  traced_pair [OF \<open>i < ?n\<close> kana Some] two)
        next
          case None
          show ?thesis
          proof (cases "map1 d [?ch]")
            case (Some v1)
            then have "(if map1 d [?ch] \<noteq> None then Good else Bad) = Good" by simp
            then show ?thesis
              by (simp only: mark_loop_single [OF \<open>i < ?n\<close> kana None]
                  traced_single [OF \<open>i < ?n\<close> kana None Some] one [of Looked_up Good] tag_of.simps)
          next
            case n1: None
            then have "(if map1 d [?ch] \<noteq> None then Good else Bad) = Bad" by simp
            then show ?thesis
              by (simp only: mark_loop_single [OF \<open>i < ?n\<close> kana None]
                  traced_unknown [OF \<open>i < ?n\<close> kana None n1] one [of Recorded Bad] tag_of.simps)
          qed
        qed
      qed
    qed
  qed
qed

lemma convert_loop_end: "\<not> i < length chars \<Longrightarrow> convert_loop chars d i st = st"
  by (subst convert_loop.simps) simp

lemma convert_loop_ws:
  "i < length chars \<Longrightarrow> isWhitespace (chars ! i) \<Longrightarrow>
   convert_loop chars d i st = convert_loop chars d (i + 1) (st\<lparr>out := out st @ [chars ! i]\<rparr>)"
  by (subst convert_loop.simps) (simp add: Let_def)

lemma convert_loop_nonkana:
  "i < length chars \<Longrightarrow> \<not> isWhitespace (chars ! i) \<Longrightarrow> \<not> HIRAGANA_RE_test (chars ! i) \<Longrightarrow>
   convert_loop chars d i st
     = convert_loop chars d (i + 1) (st\<lparr>skipped := insert (chars ! i) (skipped st)\<rparr>)"
  by (subst convert_loop.simps) (simp add: Let_def)

lemma convert_loop_pair:
  "i < length chars \<Longrightarrow> HIRAGANA_RE_test (chars ! i) \<Longrightarrow> pair_hit chars d i = Some v2 \<Longrightarrow>
   convert_loop chars d i st = convert_loop chars d (i + 2) (st\<lparr>out := out st @ v2\<rparr>)"
  by (subst convert_loop.simps) (simp add: Let_def pair_hit_def hiragana_not_ws)

lemma convert_loop_single:
  "i < length chars \<Longrightarrow> HIRAGANA_RE_test (chars ! i) \<Longrightarrow> pair_hit chars d i = None \<Longrightarrow>
   map1 d [chars ! i] = Some v1 \<Longrightarrow>
   convert_loop chars d i st = convert_loop chars d (i + 1) (st\<lparr>out := out st @ v1\<rparr>)"
  by (subst convert_loop.simps) (simp add: Let_def pair_hit_def hiragana_not_ws)

lemma convert_loop_unknown:
  "i < length chars \<Longrightarrow> HIRAGANA_RE_test (chars ! i) \<Longrightarrow> pair_hit chars d i = None \<Longrightarrow>
   map1 d [chars ! i] = None \<Longrightarrow>
   convert_loop chars d i st
     = convert_loop chars d (i + 1) (st\<lparr>skipped := insert (chars ! i) (skipped st)\<rparr>)"
  by (subst convert_loop.simps) (simp add: Let_def pair_hit_def hiragana_not_ws)

lemma convert2_loop_end: "\<not> i < length chars \<Longrightarrow> convert2_loop chars d i st = st"
  by (subst convert2_loop.simps) simp

lemma convert2_loop_ws:
  "i < length chars \<Longrightarrow> isWhitespace (chars ! i) \<Longrightarrow>
   convert2_loop chars d i st = convert2_loop chars d (i + 1) (st\<lparr>out := out st @ [chars ! i]\<rparr>)"
  by (subst convert2_loop.simps) (simp add: Let_def)

lemma convert2_loop_nonkana:
  "i < length chars \<Longrightarrow> \<not> isWhitespace (chars ! i) \<Longrightarrow> \<not> HIRAGANA_RE_test (chars ! i) \<Longrightarrow>
   convert2_loop chars d i st = convert2_loop chars d (i + 1) st"
  by (subst convert2_loop.simps) (simp add: Let_def)

lemma convert2_loop_pair:
  "i < length chars \<Longrightarrow> HIRAGANA_RE_test (chars ! i) \<Longrightarrow> pair_hit chars d i = Some v2 \<Longrightarrow>
   convert2_loop chars d i st = convert2_loop chars d (i + 2) (st\<lparr>out := out st @ v2\<rparr>)"
  by (subst convert2_loop.simps) (simp add: Let_def pair_hit_def hiragana_not_ws)

lemma convert2_loop_single:
  "i < length chars \<Longrightarrow> HIRAGANA_RE_test (chars ! i) \<Longrightarrow> pair_hit chars d i = None \<Longrightarrow>
   map1 d [chars ! i] = Some v1 \<Longrightarrow>
   convert2_loop chars d i st = convert2_loop chars d (i + 1) (st\<lparr>out := out st @ v1\<rparr>)"
  by (subst convert2_loop.simps) (simp add: Let_def pair_hit_def hiragana_not_ws)

lemma convert2_loop_unknown:
  "i < length chars \<Longrightarrow> HIRAGANA_RE_test (chars ! i) \<Longrightarrow> pair_hit chars d i = None \<Longrightarrow>
   map1 d [chars ! i] = None \<Longrightarrow>
   convert2_loop chars d i st
     = convert2_loop chars d (i + 1) (st\<lparr>skipped := insert (chars ! i) (skipped st)\<rparr>)"
  by (subst convert2_loop.simps) (simp add: Let_def pair_hit_def hiragana_not_ws)

lemma kana_part_out: "kana_part (st\<lparr>out := v\<rparr>) = (kana_part st)\<lparr>out := v\<rparr>"
  by (simp add: kana_part_def)

lemma kana_part_out_of [simp]: "out (kana_part st) = out st"
  by (simp add: kana_part_def)

lemma kana_part_insert_kana:
  "HIRAGANA_RE_test c \<Longrightarrow>
   kana_part (st\<lparr>skipped := insert c (skipped st)\<rparr>)
     = (kana_part st)\<lparr>skipped := insert c (skipped (kana_part st))\<rparr>"
proof -
  assume "HIRAGANA_RE_test c"
  then have "{x \<in> insert c (skipped st). HIRAGANA_RE_test x}
      = insert c {x \<in> skipped st. HIRAGANA_RE_test x}" by auto
  then show ?thesis by (simp add: kana_part_def)
qed

lemma kana_part_insert_other:
  "\<not> HIRAGANA_RE_test c \<Longrightarrow> kana_part (st\<lparr>skipped := insert c (skipped st)\<rparr>) = kana_part st"
proof -
  assume "\<not> HIRAGANA_RE_test c"
  then have "{x \<in> insert c (skipped st). HIRAGANA_RE_test x}
      = {x \<in> skipped st. HIRAGANA_RE_test x}" by auto
  then show ?thesis by (simp add: kana_part_def)
qed

lemma convert2_loop_kana_part:
  "convert2_loop chars d i (kana_part st) = kana_part (convert_loop chars d i st)"
proof (induction "length chars - i" arbitrary: i st rule: less_induct)
  case less
  show ?case
  proof (cases "i < length chars")
    case False
    then show ?thesis by (simp add: convert_loop_end convert2_loop_end)
  next
    case lt: True
    have IH1: "convert2_loop chars d (i + 1) (kana_part st') = kana_part (convert_loop chars d (i + 1) st')"
      for st' using lt by (intro less.hyps) simp
    show ?thesis
    proof (cases "isWhitespace (chars ! i)")
      case True
      show ?thesis
        by (simp only: convert_loop_ws [OF lt True] convert2_loop_ws [OF lt True]
              kana_part_out_of IH1 [symmetric] kana_part_out)
    next
      case nws: False
      show ?thesis
      proof (cases "HIRAGANA_RE_test (chars ! i)")
        case False
        show ?thesis
          by (simp only: convert_loop_nonkana [OF lt nws False] convert2_loop_nonkana [OF lt nws False]
                IH1 [symmetric] kana_part_insert_other [OF False])
      next
        case kana: True
        show ?thesis
        proof (cases "pair_hit chars d i")
          case (Some v2)
          then have "i + 1 < length chars" by (simp add: pair_hit_def split: if_splits)
          then have IH2: "convert2_loop chars d (i + 2) (kana_part st')
                = kana_part (convert_loop chars d (i + 2) st')" for st'
            by (intro less.hyps) simp
          show ?thesis
            by (simp only: convert_loop_pair [OF lt kana Some] convert2_loop_pair [OF lt kana Some]
                kana_part_out_of IH2 [symmetric] kana_part_out)
        next
          case None
          show ?thesis
          proof (cases "map1 d [chars ! i]")
            case (Some v1)
            show ?thesis
              by (simp only: convert_loop_single [OF lt kana None Some]
                  convert2_loop_single [OF lt kana None Some]
                  kana_part_out_of IH1 [symmetric] kana_part_out)
          next
            case n1: None
            show ?thesis
              by (simp only: convert_loop_unknown [OF lt kana None n1]
                  convert2_loop_unknown [OF lt kana None n1]
                  IH1 [symmetric] kana_part_insert_kana [OF kana])
          qed
        qed
      qed
    qed
  qed
qed

lemma convert_scan: "convert nfc src d = scan d (nfc src)"
  by (simp add: convert_def convert_loop_scan)

lemma convert2_kana_part: "convert2 nfc src d = kana_part (convert nfc src d)"
proof -
  have "kana_part \<lparr>out = [], skipped = {}\<rparr> = \<lparr>out = [], skipped = {}\<rparr>"
    by (simp add: kana_part_def)
  then show ?thesis
    using convert2_loop_kana_part [of "nfc src" d 0 "\<lparr>out = [], skipped = {}\<rparr>"]
    by (simp add: convert_def convert2_def)
qed

lemma scan_split_at:
  "\<not> HIRAGANA_RE_test c \<Longrightarrow>
   scan d (xs @ c # ys) = combine (scan d xs) (combine (scan d [c]) (scan d ys))"
  by (simp add: scan_boundary scan_nonkana_head [of c d ys])

lemma scan_empty_dict:
  "scan empty_dict xs
     = \<lparr>out = filter isWhitespace xs, skipped = {c \<in> set xs. \<not> isWhitespace c}\<rparr>"
proof (induction empty_dict xs rule: scan.induct)
  case 1
  show ?case by simp
next
  case (2 ch)
  show ?case by (auto simp add: empty_dict_def)
next
  case (3 ch nx cs)
  then show ?case
    by (auto simp add: empty_dict_def combine_def)
qed

lemma pair_hit_Some:
  "i + 1 < length chars \<Longrightarrow> HIRAGANA_RE_test (chars ! (i + 1)) \<Longrightarrow>
   map2 d [chars ! i, chars ! (i + 1)] = Some v \<Longrightarrow> pair_hit chars d i = Some v"
  by (simp add: pair_hit_def)

lemma pair_hit_None:
  "map2 d [chars ! i, chars ! (i + 1)] = None \<Longrightarrow> pair_hit chars d i = None"
  by (simp add: pair_hit_def)

lemma mark_loop_length: "length (mark_loop chars d i M) = length M"
proof (induction chars d i M rule: mark_loop.induct)
  case (1 chars dict i mark)
  show ?case
    apply (subst mark_loop.simps)
    using "1.IH"
    apply (simp add: Let_def)
    done
qed

lemma recorded_from_step:
  "i < length chars \<Longrightarrow>
   recorded_from chars tr i
     = (if tr ! i = Recorded then {chars ! i} else {}) \<union> recorded_from chars tr (i + 1)"
proof -
  assume "i < length chars"
  have "\<And>j. (i \<le> j) = (j = i \<or> i + 1 \<le> j)" by auto
  then show ?thesis
    using \<open>i < length chars\<close> unfolding recorded_from_def by (auto split: if_splits)
qed

lemma take_snoc_prefix:
  "take (i + 1) xs = tr @ [x] \<Longrightarrow> length tr = i \<Longrightarrow> take i xs = tr \<and> xs ! i = x"
proof -
  assume a: "take (i + 1) xs = tr @ [x]" and l: "length tr = i"
  have "take i xs = take i (take (i + 1) xs)" by simp
  also have "\<dots> = tr" using a l by simp
  finally have 1: "take i xs = tr" .
  have "i < length xs"
  proof (rule ccontr)
    assume "\<not> i < length xs"
    then have "length (take (i + 1) xs) \<le> i" by simp
    then show False using a l by simp
  qed
  then have "xs ! i = take (i + 1) xs ! i" by simp
  also have "\<dots> = x" using a l by (simp add: nth_append)
  finally show ?thesis using 1 by simp
qed

lemma traced_recorded:
  "length tr = i \<Longrightarrow> i \<le> length chars \<Longrightarrow>
   length (snd (convert_loop_traced chars d i st tr)) = length chars
   \<and> take i (snd (convert_loop_traced chars d i st tr)) = tr
   \<and> skipped (fst (convert_loop_traced chars d i st tr))
       = skipped st \<union> recorded_from chars (snd (convert_loop_traced chars d i st tr)) i
   \<and> (\<forall>j. i \<le> j \<and> j < length chars \<longrightarrow>
         (snd (convert_loop_traced chars d i st tr) ! j = Copied) = isWhitespace (chars ! j))"
proof (induction "length chars - i" arbitrary: i st tr rule: less_induct)
  case less
  let ?n = "length chars"
  show ?case
  proof (cases "i < ?n")
    case False
    with less.prems show ?thesis
      by (auto simp add: traced_end recorded_from_def)
  next
    case lt: True
    have one: "length (snd R) = ?n \<and> take i (snd R) = tr
        \<and> skipped (fst R) = skipped st \<union> recorded_from chars (snd R) i
        \<and> (\<forall>j. i \<le> j \<and> j < ?n \<longrightarrow> (snd R ! j = Copied) = isWhitespace (chars ! j))"
      if R: "R = convert_loop_traced chars d (i + 1) st' (tr @ [dc])"
        and cp: "(dc = Copied) = isWhitespace (chars ! i)"
        and sk: "skipped st' = (if dc = Recorded then insert (chars ! i) (skipped st) else skipped st)"
      for R st' dc
    proof -
      have ih: "length (snd R) = ?n \<and> take (i + 1) (snd R) = tr @ [dc]
          \<and> skipped (fst R) = skipped st' \<union> recorded_from chars (snd R) (i + 1)
          \<and> (\<forall>j. i + 1 \<le> j \<and> j < ?n \<longrightarrow> (snd R ! j = Copied) = isWhitespace (chars ! j))"
        unfolding R using lt less.prems by (intro less.hyps) simp_all
      then have p: "take i (snd R) = tr \<and> snd R ! i = dc"
        using take_snoc_prefix [of i "snd R" tr dc] less.prems by simp
      have cs: "(snd R ! j = Copied) = isWhitespace (chars ! j)" if "i \<le> j \<and> j < ?n" for j
      proof (cases "j = i")
        case True
        then show ?thesis using p cp by simp
      next
        case False
        then have "i + 1 \<le> j \<and> j < ?n" using that by simp
        then show ?thesis using ih by blast
      qed
      have "skipped (fst R) = skipped st \<union> recorded_from chars (snd R) i"
        using ih p sk recorded_from_step [OF lt, of "snd R"] by auto
      then show ?thesis using ih p cs by blast
    qed
    have two: "length (snd R) = ?n \<and> take i (snd R) = tr
        \<and> skipped (fst R) = skipped st \<union> recorded_from chars (snd R) i
        \<and> (\<forall>j. i \<le> j \<and> j < ?n \<longrightarrow> (snd R ! j = Copied) = isWhitespace (chars ! j))"
      if R: "R = convert_loop_traced chars d (i + 2) st' (tr @ [Looked_up, Looked_up])"
        and a: "i + 1 < ?n" and sk: "skipped st' = skipped st"
        and k0: "\<not> isWhitespace (chars ! i)" and k1: "\<not> isWhitespace (chars ! (i + 1))"
      for R st'
    proof -
      have ih: "length (snd R) = ?n \<and> take (i + 2) (snd R) = tr @ [Looked_up, Looked_up]
          \<and> skipped (fst R) = skipped st' \<union> recorded_from chars (snd R) (i + 2)
          \<and> (\<forall>j. i + 2 \<le> j \<and> j < ?n \<longrightarrow> (snd R ! j = Copied) = isWhitespace (chars ! j))"
        unfolding R using a less.prems by (intro less.hyps) simp_all
      have "take (i + 1 + 1) (snd R) = (tr @ [Looked_up]) @ [Looked_up]"
        using ih by (simp add: numeral_2_eq_2)
      then have p1: "take (i + 1) (snd R) = tr @ [Looked_up] \<and> snd R ! (i + 1) = Looked_up"
        using take_snoc_prefix [of "i + 1" "snd R" "tr @ [Looked_up]" Looked_up] less.prems
        by simp
      then have p0: "take i (snd R) = tr \<and> snd R ! i = Looked_up"
        using take_snoc_prefix [of i "snd R" tr Looked_up] less.prems by simp
      have "recorded_from chars (snd R) i = recorded_from chars (snd R) (i + 1)"
        using recorded_from_step [OF lt, of "snd R"] p0 by simp
      also have "\<dots> = recorded_from chars (snd R) (i + 1 + 1)"
        using recorded_from_step [OF a, of "snd R"] p1 by simp
      finally have "recorded_from chars (snd R) i = recorded_from chars (snd R) (i + 2)"
        by (simp add: numeral_2_eq_2)
      then have sk': "skipped (fst R) = skipped st \<union> recorded_from chars (snd R) i"
        using ih sk by simp
      have cs: "(snd R ! j = Copied) = isWhitespace (chars ! j)" if ij: "i \<le> j \<and> j < ?n" for j
      proof -
        consider "j = i" | "j = i + 1" | "i + 2 \<le> j \<and> j < ?n"
          using ij by atomize_elim arith
        then show ?thesis
        proof cases
          case 1 then show ?thesis using p0 k0 by simp
        next
          case 2 then show ?thesis using p1 k1 by simp
        next
          case 3 then show ?thesis using ih by blast
        qed
      qed
      show ?thesis using ih p0 sk' cs by blast
    qed
    show ?thesis
    proof (cases "isWhitespace (chars ! i)")
      case True
      show ?thesis
        using one [OF refl, of Copied "st\<lparr>out := out st @ [chars ! i]\<rparr>"] True
        by (simp add: traced_ws [OF lt True])
    next
      case nws: False
      show ?thesis
      proof (cases "HIRAGANA_RE_test (chars ! i)")
        case False
        show ?thesis
          using one [OF refl, of Recorded "st\<lparr>skipped := insert (chars ! i) (skipped st)\<rparr>"] nws
          by (simp add: traced_nonkana [OF lt nws False])
      next
        case kana: True
        show ?thesis
        proof (cases "pair_hit chars d i")
          case (Some v2)
          then have a: "i + 1 < ?n" by (simp add: pair_hit_def split: if_splits)
          have k1: "HIRAGANA_RE_test (chars ! (i + 1))"
            using Some by (simp add: pair_hit_def split: if_splits)
          show ?thesis
            using two [OF refl a, of "st\<lparr>out := out st @ v2\<rparr>"]
              hiragana_not_ws [OF kana] hiragana_not_ws [OF k1]
            by (simp add: traced_pair [OF lt kana Some])
        next
          case None
          show ?thesis
          proof (cases "map1 d [chars ! i]")
            case (Some v1)
            show ?thesis
              using one [OF refl, of Looked_up "st\<lparr>out := out st @ v1\<rparr>"]
                hiragana_not_ws [OF kana]
              by (simp add: traced_single [OF lt kana None Some])
          next
            case n1: None
            show ?thesis
              using one [OF refl, of Recorded "st\<lparr>skipped := insert (chars ! i) (skipped st)\<rparr>"]
                hiragana_not_ws [OF kana]
              by (simp add: traced_unknown [OF lt kana None n1])
          qed
        qed
      qed
    qed
  qed
qed


lemma tag_of_Bad: "(tag_of x = Bad) = (x = Recorded)"
  by (cases x) simp_all

lemma skipped_is_bad_marked:
  "skipped (convert nfc src d)
     = {nfc src ! j | j. j < length (nfc src) \<and> highlight_marks nfc src d ! j = Bad}"
proof -
  let ?R = "convert_loop_traced (nfc src) d 0 \<lparr>out = [], skipped = {}\<rparr> []"
  have inv: "length (snd ?R) = length (nfc src)
      \<and> skipped (fst ?R) = recorded_from (nfc src) (snd ?R) 0"
    using traced_recorded [of "[]" 0 "nfc src" d "\<lparr>out = [], skipped = {}\<rparr>"] by simp
  have m: "highlight_marks nfc src d = map tag_of (snd ?R)"
    using mark_loop_trace [of "[]" 0 "nfc src" d "\<lparr>out = [], skipped = {}\<rparr>"]
    by (simp add: highlight_marks_def)
  have c: "convert nfc src d = fst ?R"
    by (simp add: convert_def convert_loop_traced_fst)
  show ?thesis
    unfolding c m using inv by (auto simp add: recorded_from_def tag_of_Bad)
qed

lemma space_marked_iff_whitespace:
  "j < length (nfc src) \<Longrightarrow>
   (highlight_marks nfc src d ! j = Space) = isWhitespace (nfc src ! j)"
proof -
  assume j: "j < length (nfc src)"
  let ?R = "convert_loop_traced (nfc src) d 0 \<lparr>out = [], skipped = {}\<rparr> []"
  have inv: "length (snd ?R) = length (nfc src)
      \<and> (\<forall>j. 0 \<le> j \<and> j < length (nfc src) \<longrightarrow> (snd ?R ! j = Copied) = isWhitespace (nfc src ! j))"
    using traced_recorded [of "[]" 0 "nfc src" d "\<lparr>out = [], skipped = {}\<rparr>"] by simp
  have m: "highlight_marks nfc src d = map tag_of (snd ?R)"
    using mark_loop_trace [of "[]" 0 "nfc src" d "\<lparr>out = [], skipped = {}\<rparr>"]
    by (simp add: highlight_marks_def)
  have t: "(tag_of x = Space) = (x = Copied)" for x by (cases x) simp_all
  show ?thesis
    unfolding m using inv j by (simp add: t)
qed

lemma kana_part_skipped: "skipped (kana_part r) = {c \<in> skipped r. HIRAGANA_RE_test c}"
  by (simp add: kana_part_def)

lemma skipped_no_whitespace:
  "skipped (convert nfc src d) \<subseteq> {c \<in> set (nfc src). \<not> isWhitespace c}"
proof
  fix c assume "c \<in> skipped (convert nfc src d)"
  then obtain j where j: "j < length (nfc src)" "c = nfc src ! j"
      "highlight_marks nfc src d ! j = Bad"
    unfolding skipped_is_bad_marked by blast
  then have "highlight_marks nfc src d ! j \<noteq> Space" by simp
  then have "\<not> isWhitespace c"
    using space_marked_iff_whitespace [of j nfc src d] j by simp
  then show "c \<in> {c \<in> set (nfc src). \<not> isWhitespace c}"
    using j by simp
qed

section \<open>Lemmas about the parser\<close>

lemma js_space_TAB: "js_space TAB"
  by (simp add: js_space_def)

lemma not_js_space_HASH: "\<not> js_space HASH"
  by (simp add: js_space_def)

lemma trimEnd_subset: "set (trimEnd s) \<subseteq> set s"
proof -
  have "set (dropWhile js_space (rev s)) \<subseteq> set (rev s)"
    by (meson set_dropWhileD subsetI)
  then show ?thesis by (simp add: trimEnd_def)
qed

lemma trimEnd_empty_iff: "(trimEnd s = []) = (\<forall>c \<in> set s. js_space c)"
  by (auto simp add: trimEnd_def dropWhile_eq_Nil_conv)

lemma trimEnd_append_nonblank:
  "trimEnd ys \<noteq> [] \<Longrightarrow> trimEnd (xs @ ys) = xs @ trimEnd ys"
proof -
  assume "trimEnd ys \<noteq> []"
  then obtain c where c: "c \<in> set (rev ys)" "\<not> js_space c"
    by (auto simp add: trimEnd_empty_iff)
  then have "dropWhile js_space (rev ys @ rev xs) = dropWhile js_space (rev ys) @ rev xs"
    by (rule dropWhile_append1)
  then show ?thesis by (simp add: trimEnd_def)
qed

lemma trimEnd_append_blank:
  "trimEnd ys = [] \<Longrightarrow> trimEnd (xs @ ys) = trimEnd xs"
proof -
  assume "trimEnd ys = []"
  then have "\<And>c. c \<in> set (rev ys) \<Longrightarrow> js_space c"
    by (simp add: trimEnd_empty_iff)
  then have "dropWhile js_space (rev ys @ rev xs) = dropWhile js_space (rev xs)"
    by (rule dropWhile_append2)
  then show ?thesis by (simp add: trimEnd_def)
qed

lemma trimEnd_Cons_nonspace: "\<not> js_space c \<Longrightarrow> trimEnd (c # r) = c # trimEnd r"
  by (simp add: trimEnd_def dropWhile_append3)

lemma trimEnd_last: "trimEnd s \<noteq> [] \<Longrightarrow> \<not> js_space (last (trimEnd s))"
proof -
  assume a: "trimEnd s \<noteq> []"
  then have n: "dropWhile js_space (rev s) \<noteq> []" by (simp add: trimEnd_def)
  then have "\<not> js_space (hd (dropWhile js_space (rev s)))" by (rule hd_dropWhile)
  then show ?thesis using n by (simp add: trimEnd_def last_rev)
qed

lemma trimEnd_entry:
  "trimEnd v \<noteq> [] \<Longrightarrow> trimEnd (kp @ TAB # v) = kp @ TAB # trimEnd v"
  using trimEnd_append_nonblank [of v "kp @ [TAB]"] by simp

lemma trimEnd_blank_value:
  "trimEnd v = [] \<Longrightarrow> trimEnd (kp @ TAB # v) = trimEnd kp"
proof -
  assume "trimEnd v = []"
  then have "trimEnd (TAB # v) = []"
    by (simp add: trimEnd_empty_iff js_space_TAB)
  then show ?thesis by (rule trimEnd_append_blank)
qed

lemma indexOf_absent: "c \<notin> set s \<Longrightarrow> indexOf s c = - 1"
  by (simp add: indexOf_def)

lemma indexOf_first: "c \<notin> set xs \<Longrightarrow> indexOf (xs @ c # ys) c = int (length xs)"
proof -
  assume "c \<notin> set xs"
  then have "\<And>x. x \<in> set xs \<Longrightarrow> x \<noteq> c" by blast
  then have "takeWhile (\<lambda>x. x \<noteq> c) (xs @ c # ys) = xs @ takeWhile (\<lambda>x. x \<noteq> c) (c # ys)"
    by (rule takeWhile_append2)
  then show ?thesis by (simp add: indexOf_def)
qed

lemma startsWith_Nil: "startsWith [] h = False"
  by (simp add: startsWith_def)

lemma startsWith_append: "startsWith (xs @ c # ys) h = (if xs = [] then c = h else startsWith xs h)"
  by (cases xs) (simp_all add: startsWith_def)

lemma parse_line_blank: "trimEnd raw = [] \<Longrightarrow> parse_line nfc raw d = d"
  by (simp add: parse_line_def)

lemma parse_line_comment: "startsWith raw HASH \<Longrightarrow> parse_line nfc raw d = d"
proof -
  assume "startsWith raw HASH"
  then obtain r where "raw = HASH # r"
    by (cases raw) (simp_all add: startsWith_def)
  then have "startsWith (trimEnd raw) HASH"
    by (simp add: trimEnd_Cons_nonspace not_js_space_HASH startsWith_def)
  then show ?thesis by (simp add: parse_line_def)
qed

lemma parse_line_no_tab: "TAB \<notin> set raw \<Longrightarrow> parse_line nfc raw d = d"
proof -
  assume "TAB \<notin> set raw"
  then have "TAB \<notin> set (trimEnd raw)" using trimEnd_subset by blast
  then show ?thesis by (simp add: parse_line_def indexOf_absent Let_def)
qed

lemma parse_line_blank_value:
  "TAB \<notin> set kp \<Longrightarrow> trimEnd v = [] \<Longrightarrow> parse_line nfc (kp @ TAB # v) d = d"
proof -
  assume a: "TAB \<notin> set kp" "trimEnd v = []"
  then have "TAB \<notin> set (trimEnd (kp @ TAB # v))"
    using trimEnd_subset [of kp] by (auto simp add: trimEnd_blank_value)
  then show ?thesis by (simp add: parse_line_def indexOf_absent Let_def)
qed

lemma parse_line_entry:
  assumes "TAB \<notin> set kp" and "trimEnd v \<noteq> []"
  shows "parse_line nfc (kp @ TAB # v) d =
     (if startsWith kp HASH then d
      else if length (nfc (trim kp)) = 1 then
        (if HIRAGANA_RE_test (nfc (trim kp) ! 0)
         then d\<lparr>map1 := (map1 d)([nfc (trim kp) ! 0] \<mapsto> trimEnd v)\<rparr> else d)
      else if length (nfc (trim kp)) = 2 then
        (if HIRAGANA_RE_test (nfc (trim kp) ! 0) \<and> HIRAGANA_RE_test (nfc (trim kp) ! 1)
         then d\<lparr>map2 := (map2 d)([nfc (trim kp) ! 0, nfc (trim kp) ! 1] \<mapsto> trimEnd v)\<rparr>
         else d)
      else d)"
proof -
  have l: "trimEnd (kp @ TAB # v) = kp @ TAB # trimEnd v"
    using assms(2) by (rule trimEnd_entry)
  have i: "indexOf (kp @ TAB # trimEnd v) TAB = int (length kp)"
    using assms(1) by (rule indexOf_first)
  show ?thesis
    unfolding parse_line_def l
    by (simp add: i Let_def slice_def slice_from_def startsWith_append startsWith_Nil
          nat_add_distrib)
qed

lemma parse_line_map1:
  "map1 (parse_line nfc raw d) k
     = (case map1 (parse_line nfc raw empty_dict) k of Some v \<Rightarrow> Some v | None \<Rightarrow> map1 d k)"
  by (simp add: parse_line_def Let_def empty_dict_def)

lemma parse_line_map2:
  "map2 (parse_line nfc raw d) k
     = (case map2 (parse_line nfc raw empty_dict) k of Some v \<Rightarrow> Some v | None \<Rightarrow> map2 d k)"
  by (simp add: parse_line_def Let_def empty_dict_def)

lemma fold_untouched1:
  "\<forall>l \<in> set ls. map1 (parse_line nfc l empty_dict) k = None \<Longrightarrow>
   map1 (fold (parse_line nfc) ls d) k = map1 d k"
proof (induction ls arbitrary: d)
  case Nil
  show ?case by simp
next
  case (Cons l ls)
  then have "map1 (fold (parse_line nfc) ls (parse_line nfc l d)) k = map1 (parse_line nfc l d) k"
    by simp
  also have "\<dots> = map1 d k"
    using Cons.prems by (simp add: parse_line_map1 [of nfc l d k])
  finally show ?case by simp
qed

lemma fold_untouched2:
  "\<forall>l \<in> set ls. map2 (parse_line nfc l empty_dict) k = None \<Longrightarrow>
   map2 (fold (parse_line nfc) ls d) k = map2 d k"
proof (induction ls arbitrary: d)
  case Nil
  show ?case by simp
next
  case (Cons l ls)
  then have "map2 (fold (parse_line nfc) ls (parse_line nfc l d)) k = map2 (parse_line nfc l d) k"
    by simp
  also have "\<dots> = map2 d k"
    using Cons.prems by (simp add: parse_line_map2 [of nfc l d k])
  finally show ?case by simp
qed

lemma table_ok_empty: "table_ok empty_dict"
  by (simp add: table_ok_def empty_dict_def)

lemma table_ok_parse_line: "table_ok d \<Longrightarrow> table_ok (parse_line nfc raw d)"
  by (auto simp add: table_ok_def parse_line_def Let_def split: if_splits)

lemma table_ok_fold: "table_ok d \<Longrightarrow> table_ok (fold (parse_line nfc) ls d)"
  by (induction ls arbitrary: d) (simp_all add: table_ok_parse_line)

lemma entry_line_stores:
  assumes "TAB \<notin> set kp" and "\<not> startsWith kp HASH" and "trimEnd v \<noteq> []"
  shows "(nfc (trim kp) = [k] \<and> HIRAGANA_RE_test k \<longrightarrow>
            parse_line nfc (kp @ TAB # v) d = d\<lparr>map1 := (map1 d)([k] \<mapsto> trimEnd v)\<rparr>
          \<and> (split_lines text = A @ (kp @ TAB # v) # C
               \<and> (\<forall>l \<in> set C. map1 (parse_line nfc l empty_dict) [k] = None) \<longrightarrow>
              map1 (parseDictTsv nfc text) [k] = Some (trimEnd v)))
       \<and> (nfc (trim kp) = [k0, k1] \<and> HIRAGANA_RE_test k0 \<and> HIRAGANA_RE_test k1 \<longrightarrow>
            parse_line nfc (kp @ TAB # v) d = d\<lparr>map2 := (map2 d)([k0, k1] \<mapsto> trimEnd v)\<rparr>
          \<and> (split_lines text = A @ (kp @ TAB # v) # C
               \<and> (\<forall>l \<in> set C. map2 (parse_line nfc l empty_dict) [k0, k1] = None) \<longrightarrow>
              map2 (parseDictTsv nfc text) [k0, k1] = Some (trimEnd v)))
       \<and> \<not> js_space (last (trimEnd v))"
proof -
  define d0 where "d0 = fold (parse_line nfc) A empty_dict"
  note entry = parse_line_entry [OF assms(1) assms(3)]
  have p: "parseDictTsv nfc text = fold (parse_line nfc) C (parse_line nfc (kp @ TAB # v) d0)"
    if "split_lines text = A @ (kp @ TAB # v) # C"
    using that by (simp add: parseDictTsv_def d0_def)
  have one: "parse_line nfc (kp @ TAB # v) d' = d'\<lparr>map1 := (map1 d')([k] \<mapsto> trimEnd v)\<rparr>"
    if "nfc (trim kp) = [k] \<and> HIRAGANA_RE_test k" for d'
    unfolding entry using that assms(2) by simp
  have two: "parse_line nfc (kp @ TAB # v) d' = d'\<lparr>map2 := (map2 d')([k0, k1] \<mapsto> trimEnd v)\<rparr>"
    if "nfc (trim kp) = [k0, k1] \<and> HIRAGANA_RE_test k0 \<and> HIRAGANA_RE_test k1" for d'
    unfolding entry using that assms(2) by simp
  have t1: "map1 (parseDictTsv nfc text) [k] = Some (trimEnd v)"
    if k: "nfc (trim kp) = [k] \<and> HIRAGANA_RE_test k"
      and h: "split_lines text = A @ (kp @ TAB # v) # C
               \<and> (\<forall>l \<in> set C. map1 (parse_line nfc l empty_dict) [k] = None)"
  proof -
    have "map1 (parseDictTsv nfc text) [k] = map1 (parse_line nfc (kp @ TAB # v) d0) [k]"
      using h by (simp add: p fold_untouched1)
    then show ?thesis by (simp add: one [OF k])
  qed
  have t2: "map2 (parseDictTsv nfc text) [k0, k1] = Some (trimEnd v)"
    if k: "nfc (trim kp) = [k0, k1] \<and> HIRAGANA_RE_test k0 \<and> HIRAGANA_RE_test k1"
      and h: "split_lines text = A @ (kp @ TAB # v) # C
               \<and> (\<forall>l \<in> set C. map2 (parse_line nfc l empty_dict) [k0, k1] = None)"
  proof -
    have "map2 (parseDictTsv nfc text) [k0, k1] = map2 (parse_line nfc (kp @ TAB # v) d0) [k0, k1]"
      using h by (simp add: p fold_untouched2)
    then show ?thesis by (simp add: two [OF k])
  qed
  show ?thesis
    using one two t1 t2 trimEnd_last [OF assms(3)] by blast
qed

section \<open>Claims about convert\<close>

text \<open>
  C1. Longest match first: when the table has a two-symbol entry for the hiragana pair
  \<open>a, b\<close> and a one-symbol entry for \<open>a\<close>, then at a cursor where \<open>a, b\<close> stand
  the loop appends the value of the two-symbol entry and goes on two positions later,
  whatever the one-symbol entry is; and converting a source whose symbols are \<open>a, b\<close>
  gives exactly the value of the two-symbol entry.
\<close>

theorem convert_pair_precedence:
  assumes "map2 d [a, b] = Some X" and "map1 d [a] = Some Y"
    and "HIRAGANA_RE_test a" and "HIRAGANA_RE_test b"
  shows "(i + 1 < length chars \<and> chars ! i = a \<and> chars ! (i + 1) = b \<longrightarrow>
            convert_loop chars d i st = convert_loop chars d (i + 2) (st\<lparr>out := out st @ X\<rparr>))
       \<and> (nfc src = [a, b] \<longrightarrow> convert nfc src d = \<lparr>out = X, skipped = {}\<rparr>)"
proof (intro conjI impI)
  assume h: "i + 1 < length chars \<and> chars ! i = a \<and> chars ! (i + 1) = b"
  then have lt: "i < length chars" by simp
  have "pair_hit chars d i = Some X"
    using h assms by (intro pair_hit_Some) simp_all
  then show "convert_loop chars d i st = convert_loop chars d (i + 2) (st\<lparr>out := out st @ X\<rparr>)"
    using convert_loop_pair [OF lt _ \<open>pair_hit chars d i = Some X\<close>] h assms by simp
next
  assume "nfc src = [a, b]"
  then show "convert nfc src d = \<lparr>out = X, skipped = {}\<rparr>"
    using assms by (simp add: convert_scan combine_def hiragana_not_ws)
qed

theorem convert_pair_precedence_witness:
  "dict.map2 \<lparr>map1 = [[0x3042] \<mapsto> [89]], map2 = [[0x3042, 0x3044] \<mapsto> [88]]\<rparr> [0x3042, 0x3044] = Some [88]
   \<and> map1 \<lparr>map1 = [[0x3042] \<mapsto> [89]], map2 = [[0x3042, 0x3044] \<mapsto> [88]]\<rparr> [0x3042] = Some [89]
   \<and> HIRAGANA_RE_test 0x3042 \<and> HIRAGANA_RE_test 0x3044
   \<and> nfc_stable [0x3042, 0x3044] = [0x3042, 0x3044]
   \<and> convert nfc_stable [0x3042, 0x3044]
        \<lparr>map1 = [[0x3042] \<mapsto> [89]], map2 = [[0x3042, 0x3044] \<mapsto> [88]]\<rparr>
      = \<lparr>out = [88], skipped = {}\<rparr>
   \<and> convert_loop [SPACE, 0x3042, 0x3044] 
        \<lparr>map1 = [[0x3042] \<mapsto> [89]], map2 = [[0x3042, 0x3044] \<mapsto> [88]]\<rparr> 1 \<lparr>out = [SPACE], skipped = {}\<rparr>
      = \<lparr>out = [SPACE, 88], skipped = {}\<rparr>"
  using convert_pair_precedence [of "\<lparr>map1 = [[0x3042] \<mapsto> [89]], map2 = [[0x3042, 0x3044] \<mapsto> [88]]\<rparr>"
      "0x3042" "0x3044" "[88]" "[89]" 1 "[SPACE, 0x3042, 0x3044]" "\<lparr>out = [SPACE], skipped = {}\<rparr>"
      nfc_stable "[0x3042, 0x3044]"]
  by (simp add: HIRAGANA_RE_test_def nfc_stable_def convert_loop_end)

text \<open>
  C2. The highlighting pass and \<^verbatim>\<open>convert\<close> take the same decisions. The traced loop
  returns what \<^verbatim>\<open>convert\<close> returns, and the tag of every position is the tag of the
  decision \<^verbatim>\<open>convert\<close> took there: \<open>Good\<close> where a one- or two-symbol lookup
  consumed it, \<open>Space\<close> where it was copied as whitespace, \<open>Bad\<close> where it was
  passed to \<^verbatim>\<open>skipped.add\<close>. There is one tag per symbol of the normalised source; the
  skipped set of \<^verbatim>\<open>convert\<close> is exactly the set of symbols at the positions tagged
  \<open>Bad\<close>, and a position is tagged \<open>Space\<close> exactly when its symbol is whitespace.
\<close>

theorem highlight_agrees_with_convert:
  "fst (convert_traced nfc src d) = convert nfc src d
   \<and> highlight_marks nfc src d = map tag_of (snd (convert_traced nfc src d))
   \<and> length (highlight_marks nfc src d) = length (nfc src)
   \<and> skipped (convert nfc src d)
       = {nfc src ! j | j. j < length (nfc src) \<and> highlight_marks nfc src d ! j = Bad}
   \<and> (\<forall>j < length (nfc src).
         (highlight_marks nfc src d ! j = Space) = isWhitespace (nfc src ! j))"
proof (intro conjI allI impI)
  show "fst (convert_traced nfc src d) = convert nfc src d"
    by (simp add: convert_traced_def convert_def convert_loop_traced_fst)
  show "highlight_marks nfc src d = map tag_of (snd (convert_traced nfc src d))"
    using mark_loop_trace [of "[]" 0 "nfc src" d "\<lparr>out = [], skipped = {}\<rparr>"]
    by (simp add: highlight_marks_def convert_traced_def)
  show "length (highlight_marks nfc src d) = length (nfc src)"
    by (simp add: highlight_marks_def Let_def mark_loop_length)
  show "skipped (convert nfc src d)
       = {nfc src ! j | j. j < length (nfc src) \<and> highlight_marks nfc src d ! j = Bad}"
    by (rule skipped_is_bad_marked)
  show "(highlight_marks nfc src d ! j = Space) = isWhitespace (nfc src ! j)"
    if "j < length (nfc src)" for j
    using that by (rule space_marked_iff_whitespace)
qed

theorem highlight_agrees_with_convert_witness:
  "highlight_marks nfc_stable [0x3042, 0x3044, SPACE, 0x3046, 65]
      \<lparr>map1 = [[0x3048] \<mapsto> [89]], map2 = [[0x3042, 0x3044] \<mapsto> [88]]\<rparr>
     = [Good, Good, Space, Bad, Bad]
   \<and> snd (convert_traced nfc_stable [0x3042, 0x3044, SPACE, 0x3046, 65]
      \<lparr>map1 = [[0x3048] \<mapsto> [89]], map2 = [[0x3042, 0x3044] \<mapsto> [88]]\<rparr>)
     = [Looked_up, Looked_up, Copied, Recorded, Recorded]
   \<and> convert nfc_stable [0x3042, 0x3044, SPACE, 0x3046, 65]
      \<lparr>map1 = [[0x3048] \<mapsto> [89]], map2 = [[0x3042, 0x3044] \<mapsto> [88]]\<rparr>
     = \<lparr>out = [88, SPACE], skipped = {0x3046, 65}\<rparr>
   \<and> (2::nat) < length (nfc_stable [0x3042, 0x3044, SPACE, 0x3046, 65])
   \<and> isWhitespace (nfc_stable [0x3042, 0x3044, SPACE, 0x3046, 65] ! 2)"
  using highlight_agrees_with_convert [of nfc_stable "[0x3042, 0x3044, SPACE, 0x3046, 65]"
      "\<lparr>map1 = [[0x3048] \<mapsto> [89]], map2 = [[0x3042, 0x3044] \<mapsto> [88]]\<rparr>"]
  by (simp add: convert_traced_def convert_loop_traced.simps nfc_stable_def
        HIRAGANA_RE_test_def isWhitespace_def insert_commute)

text \<open>
  C4 as stated fails on the second \<^verbatim>\<open>convert\<close>: the letter A (code point 65) is neither
  whitespace nor hiragana, and converting the one-symbol source A leaves it out of the
  skipped set.
\<close>

theorem convert2_does_not_record_counterexample:
  "\<not> isWhitespace 65 \<and> \<not> HIRAGANA_RE_test 65
   \<and> 65 \<notin> skipped (convert2 nfc_stable [65] empty_dict)"
  by (simp add: isWhitespace_def HIRAGANA_RE_test_def nfc_stable_def convert2_def
        convert2_loop.simps)

text \<open>
  C4, as amended. A symbol \<open>c\<close> that is neither whitespace nor hiragana adds nothing
  to the output and the scan goes on one position later, in both versions of
  \<^verbatim>\<open>convert\<close>. The first version records \<open>c\<close> in the skipped set; the second version
  does not.
\<close>

theorem convert_drops_out_of_alphabet:
  assumes "\<not> isWhitespace c" and "\<not> HIRAGANA_RE_test c"
  shows "(nfc src = nfc s1 @ c # nfc s2 \<longrightarrow>
            c \<in> skipped (convert nfc src d)
          \<and> out (convert nfc src d) = out (convert nfc s1 d) @ out (convert nfc s2 d)
          \<and> c \<notin> skipped (convert2 nfc src d)
          \<and> out (convert2 nfc src d) = out (convert2 nfc s1 d) @ out (convert2 nfc s2 d))
       \<and> (i < length chars \<and> chars ! i = c \<longrightarrow>
            convert_loop chars d i st
              = convert_loop chars d (i + 1) (st\<lparr>skipped := insert c (skipped st)\<rparr>)
          \<and> convert2_loop chars d i st = convert2_loop chars d (i + 1) st)"
proof (intro conjI impI)
  assume h: "nfc src = nfc s1 @ c # nfc s2"
  have sc: "scan d [c] = \<lparr>out = [], skipped = {c}\<rparr>" using assms by simp
  show "c \<in> skipped (convert nfc src d)"
    using h assms by (simp add: convert_scan scan_split_at [OF assms(2)] sc combine_def)
  show o1: "out (convert nfc src d) = out (convert nfc s1 d) @ out (convert nfc s2 d)"
    using h assms by (simp add: convert_scan scan_split_at [OF assms(2)] sc combine_def)
  show "c \<notin> skipped (convert2 nfc src d)"
    using assms by (simp add: convert2_kana_part kana_part_skipped)
  show "out (convert2 nfc src d) = out (convert2 nfc s1 d) @ out (convert2 nfc s2 d)"
    using o1 by (simp add: convert2_kana_part)
next
  assume h: "i < length chars \<and> chars ! i = c"
  show "convert_loop chars d i st
      = convert_loop chars d (i + 1) (st\<lparr>skipped := insert c (skipped st)\<rparr>)"
    using convert_loop_nonkana [of i chars d st] h assms by simp
  show "convert2_loop chars d i st = convert2_loop chars d (i + 1) st"
    using convert2_loop_nonkana [of i chars d st] h assms by simp
qed

theorem convert_drops_out_of_alphabet_witness:
  "\<not> isWhitespace 65 \<and> \<not> HIRAGANA_RE_test 65
   \<and> nfc_stable [0x3042, 65, 0x3044] = nfc_stable [0x3042] @ 65 # nfc_stable [0x3044]
   \<and> convert nfc_stable [0x3042, 65, 0x3044]
        \<lparr>map1 = [[0x3042] \<mapsto> [49], [0x3044] \<mapsto> [50]], map2 = Map.empty\<rparr>
      = \<lparr>out = [49, 50], skipped = {65}\<rparr>
   \<and> convert2 nfc_stable [0x3042, 65, 0x3044]
        \<lparr>map1 = [[0x3042] \<mapsto> [49], [0x3044] \<mapsto> [50]], map2 = Map.empty\<rparr>
      = \<lparr>out = [49, 50], skipped = {}\<rparr>"
  using convert_drops_out_of_alphabet [of 65 nfc_stable "[0x3042, 65, 0x3044]" "[0x3042]" "[0x3044]"
      "\<lparr>map1 = [[0x3042] \<mapsto> [49], [0x3044] \<mapsto> [50]], map2 = Map.empty\<rparr>"]
  by (simp add: isWhitespace_def HIRAGANA_RE_test_def nfc_stable_def convert_def convert2_def
        convert_loop.simps convert2_loop.simps)

text \<open>
  C5. No shifted retry: when the table has a one-symbol entry for \<open>a\<close> with value
  \<open>Y\<close>, no two-symbol entry for the hiragana pair \<open>a, b\<close> and no one-symbol entry
  for \<open>b\<close>, converting a source whose symbols are \<open>a, b\<close> gives output \<open>Y\<close> and
  skipped set \<open>{b}\<close>; and at any cursor where \<open>a, b\<close> stand, the loop appends
  \<open>Y\<close> and goes on at the next position, where \<open>b\<close> stands.
\<close>

theorem convert_no_fallback_shift:
  assumes "map1 d [a] = Some Y" and "map2 d [a, b] = None" and "map1 d [b] = None"
    and "HIRAGANA_RE_test a" and "HIRAGANA_RE_test b"
  shows "(nfc src = [a, b] \<longrightarrow> convert nfc src d = \<lparr>out = Y, skipped = {b}\<rparr>)
       \<and> (i + 1 < length chars \<and> chars ! i = a \<and> chars ! (i + 1) = b \<longrightarrow>
            convert_loop chars d i st = convert_loop chars d (i + 1) (st\<lparr>out := out st @ Y\<rparr>))"
proof (intro conjI impI)
  assume "nfc src = [a, b]"
  then show "convert nfc src d = \<lparr>out = Y, skipped = {b}\<rparr>"
    using assms by (simp add: convert_scan combine_def hiragana_not_ws)
next
  assume h: "i + 1 < length chars \<and> chars ! i = a \<and> chars ! (i + 1) = b"
  then have lt: "i < length chars" by simp
  have ph: "pair_hit chars d i = None"
    using h assms by (intro pair_hit_None) simp
  show "convert_loop chars d i st = convert_loop chars d (i + 1) (st\<lparr>out := out st @ Y\<rparr>)"
    using convert_loop_single [OF lt _ ph, of Y st] h assms by simp
qed

theorem convert_no_fallback_shift_witness:
  "map1 \<lparr>map1 = [[0x3042] \<mapsto> [89]], map2 = Map.empty\<rparr> [0x3042] = Some [89]
   \<and> dict.map2 \<lparr>map1 = [[0x3042] \<mapsto> [89]], map2 = Map.empty\<rparr> [0x3042, 0x3044] = None
   \<and> map1 \<lparr>map1 = [[0x3042] \<mapsto> [89]], map2 = Map.empty\<rparr> [0x3044] = None
   \<and> HIRAGANA_RE_test 0x3042 \<and> HIRAGANA_RE_test 0x3044
   \<and> nfc_stable [0x3042, 0x3044] = [0x3042, 0x3044]
   \<and> convert nfc_stable [0x3042, 0x3044] \<lparr>map1 = [[0x3042] \<mapsto> [89]], map2 = Map.empty\<rparr>
      = \<lparr>out = [89], skipped = {0x3044}\<rparr>
   \<and> convert_loop [0x3042, 0x3044] \<lparr>map1 = [[0x3042] \<mapsto> [89]], map2 = Map.empty\<rparr> 0
        \<lparr>out = [], skipped = {}\<rparr>
      = convert_loop [0x3042, 0x3044] \<lparr>map1 = [[0x3042] \<mapsto> [89]], map2 = Map.empty\<rparr> 1
        \<lparr>out = [89], skipped = {}\<rparr>"
  using convert_no_fallback_shift [of "\<lparr>map1 = [[0x3042] \<mapsto> [89]], map2 = Map.empty\<rparr>"
      "0x3042" "[89]" "0x3044" nfc_stable "[0x3042, 0x3044]" 0 "[0x3042, 0x3044]"
      "\<lparr>out = [], skipped = {}\<rparr>"]
  by (simp add: HIRAGANA_RE_test_def nfc_stable_def)

text \<open>
  C6. Whitespace is preserved: a whitespace symbol \<open>w\<close> of the normalised source is
  copied to the output at its place in the scan, between what the symbols before it and
  the symbols after it produce; at the cursor the loop appends \<open>w\<close> itself and goes on
  one position later.
\<close>

theorem convert_whitespace_verbatim:
  assumes "isWhitespace w"
  shows "(nfc src = nfc s1 @ w # nfc s2 \<longrightarrow>
            out (convert nfc src d) = out (convert nfc s1 d) @ [w] @ out (convert nfc s2 d))
       \<and> (i < length chars \<and> chars ! i = w \<longrightarrow>
            convert_loop chars d i st = convert_loop chars d (i + 1) (st\<lparr>out := out st @ [w]\<rparr>))"
proof (intro conjI impI)
  have nk: "\<not> HIRAGANA_RE_test w" using assms hiragana_not_ws by blast
  assume "nfc src = nfc s1 @ w # nfc s2"
  then show "out (convert nfc src d) = out (convert nfc s1 d) @ [w] @ out (convert nfc s2 d)"
    using assms by (simp add: convert_scan scan_split_at [OF nk] combine_def)
next
  assume "i < length chars \<and> chars ! i = w"
  then show "convert_loop chars d i st = convert_loop chars d (i + 1) (st\<lparr>out := out st @ [w]\<rparr>)"
    using convert_loop_ws [of i chars d st] assms by simp
qed

theorem convert_whitespace_verbatim_witness:
  "isWhitespace LF
   \<and> nfc_stable [0x3042, LF, 0x3044] = nfc_stable [0x3042] @ LF # nfc_stable [0x3044]
   \<and> out (convert nfc_stable [0x3042, LF, 0x3044]
        \<lparr>map1 = [[0x3042] \<mapsto> [49], [0x3044] \<mapsto> [50]], map2 = Map.empty\<rparr>) = [49, LF, 50]"
  using convert_whitespace_verbatim [of LF nfc_stable "[0x3042, LF, 0x3044]" "[0x3042]" "[0x3044]"
      "\<lparr>map1 = [[0x3042] \<mapsto> [49], [0x3044] \<mapsto> [50]], map2 = Map.empty\<rparr>"]
  by (simp add: isWhitespace_def nfc_stable_def convert_scan HIRAGANA_RE_test_def)

text \<open>
  C7. Against the empty table, a source of hiragana symbols only gives the empty output
  and the set of its symbols as skipped set; for every source the output is the
  whitespace of the normalised source, in order, and the skipped set holds every other
  symbol of it. (A source of hiragana only is in normalisation form C, which is the
  hypothesis \<open>nfc s = s\<close>.)
\<close>

theorem convert_empty_table:
  "((\<forall>c \<in> set s. HIRAGANA_RE_test c \<and> \<not> isWhitespace c) \<and> nfc s = s \<longrightarrow>
        convert nfc s empty_dict = \<lparr>out = [], skipped = set s\<rparr>)
   \<and> out (convert nfc s empty_dict) = filter isWhitespace (nfc s)
   \<and> skipped (convert nfc s empty_dict) = {c \<in> set (nfc s). \<not> isWhitespace c}"
proof (intro conjI impI)
  assume h: "(\<forall>c \<in> set s. HIRAGANA_RE_test c \<and> \<not> isWhitespace c) \<and> nfc s = s"
  then have "filter isWhitespace s = []" and "{c \<in> set s. \<not> isWhitespace c} = set s"
    by (auto simp add: filter_empty_conv)
  then show "convert nfc s empty_dict = \<lparr>out = [], skipped = set s\<rparr>"
    using h by (simp add: convert_scan scan_empty_dict)
next
  show "out (convert nfc s empty_dict) = filter isWhitespace (nfc s)"
    by (simp add: convert_scan scan_empty_dict)
  show "skipped (convert nfc s empty_dict) = {c \<in> set (nfc s). \<not> isWhitespace c}"
    by (simp add: convert_scan scan_empty_dict)
qed

theorem convert_empty_table_witness:
  "HIRAGANA_RE_test 0x3042 \<and> \<not> isWhitespace 0x3042
   \<and> HIRAGANA_RE_test 0x3044 \<and> \<not> isWhitespace 0x3044
   \<and> nfc_stable [0x3042, 0x3044, 0x3042] = [0x3042, 0x3044, 0x3042]
   \<and> convert nfc_stable [0x3042, 0x3044, 0x3042] empty_dict
       = \<lparr>out = [], skipped = {0x3042, 0x3044}\<rparr>"
  using convert_empty_table [of "[0x3042, 0x3044, 0x3042]" nfc_stable]
  by (simp add: HIRAGANA_RE_test_def isWhitespace_def nfc_stable_def insert_commute)

text \<open>
  C10 as stated fails: on the one-symbol source A (code point 65) the first version
  returns the skipped set \<open>{65}\<close>, the second the empty set.
\<close>

theorem convert_versions_differ_counterexample:
  "convert nfc_stable [65] empty_dict \<noteq> convert2 nfc_stable [65] empty_dict"
  by (simp add: isWhitespace_def HIRAGANA_RE_test_def nfc_stable_def convert_def convert2_def
        convert_loop.simps convert2_loop.simps)

text \<open>
  C10, as amended. The two versions of \<^verbatim>\<open>convert\<close> return the same output string;
  the skipped set of the second is the skipped set of the first restricted to hiragana
  symbols, so both results are equal when every symbol of the normalised source is
  whitespace or hiragana.
\<close>

theorem convert_versions_same_output:
  "out (convert2 nfc src d) = out (convert nfc src d)
   \<and> skipped (convert2 nfc src d) = {c \<in> skipped (convert nfc src d). HIRAGANA_RE_test c}
   \<and> ((\<forall>c \<in> set (nfc src). isWhitespace c \<or> HIRAGANA_RE_test c) \<longrightarrow>
         convert2 nfc src d = convert nfc src d)"
proof (intro conjI impI)
  show "out (convert2 nfc src d) = out (convert nfc src d)"
    by (simp add: convert2_kana_part)
  show "skipped (convert2 nfc src d) = {c \<in> skipped (convert nfc src d). HIRAGANA_RE_test c}"
    by (simp add: convert2_kana_part kana_part_skipped)
next
  assume h: "\<forall>c \<in> set (nfc src). isWhitespace c \<or> HIRAGANA_RE_test c"
  have "skipped (convert nfc src d) \<subseteq> {c \<in> set (nfc src). \<not> isWhitespace c}"
    by (rule skipped_no_whitespace)
  then have "{c \<in> skipped (convert nfc src d). HIRAGANA_RE_test c} = skipped (convert nfc src d)"
    using h by auto
  then show "convert2 nfc src d = convert nfc src d"
    by (simp add: convert2_kana_part kana_part_def)
qed

theorem convert_versions_same_output_witness:
  "(isWhitespace SPACE \<or> HIRAGANA_RE_test SPACE)
   \<and> (isWhitespace 0x3042 \<or> HIRAGANA_RE_test 0x3042)
   \<and> convert2 nfc_stable [0x3042, SPACE] empty_dict = \<lparr>out = [SPACE], skipped = {0x3042}\<rparr>
   \<and> convert nfc_stable [0x3042, SPACE] empty_dict = \<lparr>out = [SPACE], skipped = {0x3042}\<rparr>"
  using convert_versions_same_output [of nfc_stable "[0x3042, SPACE]" empty_dict]
  by (simp add: isWhitespace_def HIRAGANA_RE_test_def nfc_stable_def convert_def
        convert_loop.simps empty_dict_def)

section \<open>Claims about parseDictTsv\<close>

text \<open>
  C3 as stated fails: every line is end-trimmed before it is split at the tab. For the
  one-line text hiragana A, tab, X, space the stored value is X, without the
  space after it.
\<close>

theorem parseDictTsv_value_counterexample:
  "map1 (parseDictTsv nfc_stable [0x3042, TAB, 88, SPACE]) [0x3042] = Some [88]
   \<and> map1 (parseDictTsv nfc_stable [0x3042, TAB, 88, SPACE]) [0x3042] \<noteq> Some [88, SPACE]"
  by (simp add: parseDictTsv_def parse_line_def trimEnd_def trim_def trimStart_def
  js_space_def indexOf_def slice_def slice_from_def startsWith_def nfc_stable_def
  HIRAGANA_RE_test_def empty_dict_def)

text \<open>
  C3, as amended. A line with a tab is \<open>kp\<close>, tab, \<open>v\<close>, where \<open>v\<close> is the text
  after the first tab. When \<open>v\<close> is not only whitespace (and the key part \<open>kp\<close>
  normalises to one or two hiragana symbols), the stored value is \<open>v\<close> with the
  whitespace at the end of the line stripped and nothing else changed: whitespace at the
  start of the value and inside it is kept, and a stored value is never empty and never
  ends with whitespace. The line stores that value under its key, and the table returned
  for a text holds it when no later line of the text is an entry for the same key. When
  \<open>v\<close> is empty or only whitespace, the line stores nothing: the end-trim removes the
  tab as well, and the maps stay as they are.
\<close>

theorem parseDictTsv_value_end_trimmed:
  assumes "TAB \<notin> set kp" and "\<not> startsWith kp HASH"
  shows "(trimEnd v \<noteq> [] \<and> nfc (trim kp) = [k] \<and> HIRAGANA_RE_test k \<longrightarrow>
            parse_line nfc (kp @ TAB # v) d = d\<lparr>map1 := (map1 d)([k] \<mapsto> trimEnd v)\<rparr>
          \<and> (split_lines text = A @ (kp @ TAB # v) # C
               \<and> (\<forall>l \<in> set C. map1 (parse_line nfc l empty_dict) [k] = None) \<longrightarrow>
              map1 (parseDictTsv nfc text) [k] = Some (trimEnd v)))
       \<and> (trimEnd v \<noteq> [] \<and> nfc (trim kp) = [k0, k1]
            \<and> HIRAGANA_RE_test k0 \<and> HIRAGANA_RE_test k1 \<longrightarrow>
            parse_line nfc (kp @ TAB # v) d = d\<lparr>map2 := (map2 d)([k0, k1] \<mapsto> trimEnd v)\<rparr>
          \<and> (split_lines text = A @ (kp @ TAB # v) # C
               \<and> (\<forall>l \<in> set C. map2 (parse_line nfc l empty_dict) [k0, k1] = None) \<longrightarrow>
              map2 (parseDictTsv nfc text) [k0, k1] = Some (trimEnd v)))
       \<and> (trimEnd v \<noteq> [] \<longrightarrow> \<not> js_space (last (trimEnd v)))
       \<and> (trimEnd v = [] \<longrightarrow> parse_line nfc (kp @ TAB # v) d = d)"
proof (cases "trimEnd v = []")
  case True
  then show ?thesis
    using parse_line_blank_value [OF assms(1) True, of nfc d] by simp
next
  case False
  show ?thesis
    using entry_line_stores [OF assms False, of nfc k d "text" A C k0 k1] False by blast
qed

theorem parseDictTsv_value_end_trimmed_witness:
  "TAB \<notin> set [0x3042] \<and> \<not> startsWith [0x3042] HASH \<and> trimEnd [SPACE, 88, SPACE] = [SPACE, 88]
   \<and> nfc_stable (trim [0x3042]) = [0x3042] \<and> HIRAGANA_RE_test 0x3042
   \<and> split_lines [HASH, LF, 0x3042, TAB, SPACE, 88, SPACE, LF, 0x3044, TAB, 89]
        = [[HASH]] @ ([0x3042] @ TAB # [SPACE, 88, SPACE]) # [[0x3044, TAB, 89]]
   \<and> map1 (parse_line nfc_stable [0x3044, TAB, 89] empty_dict) [0x3042] = None
   \<and> parse_line nfc_stable ([0x3042] @ TAB # [SPACE, 88, SPACE]) empty_dict
        = empty_dict\<lparr>map1 := (map1 empty_dict)([0x3042] \<mapsto> [SPACE, 88])\<rparr>
   \<and> map1 (parseDictTsv nfc_stable [HASH, LF, 0x3042, TAB, SPACE, 88, SPACE, LF, 0x3044, TAB, 89])
        [0x3042] = Some [SPACE, 88]
   \<and> \<not> js_space (last (trimEnd [SPACE, 88, SPACE]))
   \<and> TAB \<notin> set [SPACE, 0x3042, 0x3044] \<and> \<not> startsWith [SPACE, 0x3042, 0x3044] HASH
   \<and> trimEnd [88, TAB, 89, CR] = [88, TAB, 89]
   \<and> nfc_stable (trim [SPACE, 0x3042, 0x3044]) = [0x3042, 0x3044] \<and> HIRAGANA_RE_test 0x3044
   \<and> split_lines [SPACE, 0x3042, 0x3044, TAB, 88, TAB, 89, CR]
        = [] @ ([SPACE, 0x3042, 0x3044] @ TAB # [88, TAB, 89, CR]) # []
   \<and> dict.map2 (parseDictTsv nfc_stable [SPACE, 0x3042, 0x3044, TAB, 88, TAB, 89, CR]) [0x3042, 0x3044]
        = Some [88, TAB, 89]
   \<and> trimEnd [] = []
   \<and> parse_line nfc_stable ([0x3042] @ TAB # []) \<lparr>map1 = [[0x3042] \<mapsto> [88]], map2 = Map.empty\<rparr>
        = \<lparr>map1 = [[0x3042] \<mapsto> [88]], map2 = Map.empty\<rparr>
   \<and> trimEnd [SPACE] = []
   \<and> parse_line nfc_stable ([0x3042] @ TAB # [SPACE]) \<lparr>map1 = [[0x3042] \<mapsto> [88]], map2 = Map.empty\<rparr>
        = \<lparr>map1 = [[0x3042] \<mapsto> [88]], map2 = Map.empty\<rparr>
   \<and> map1 (parseDictTsv nfc_stable [0x3042, TAB, 88, LF, 0x3042, TAB]) [0x3042] = Some [88]
   \<and> map1 (parseDictTsv nfc_stable [0x3042, TAB, SPACE]) [0x3042] = None"
  using parseDictTsv_value_end_trimmed [of "[0x3042]" "[SPACE, 88, SPACE]" nfc_stable "0x3042"
      empty_dict "[HASH, LF, 0x3042, TAB, SPACE, 88, SPACE, LF, 0x3044, TAB, 89]" "[[HASH]]"
      "[[0x3044, TAB, 89]]" 0 0]
    parseDictTsv_value_end_trimmed [of "[SPACE, 0x3042, 0x3044]" "[88, TAB, 89, CR]" nfc_stable 0
      empty_dict "[SPACE, 0x3042, 0x3044, TAB, 88, TAB, 89, CR]" "[]" "[]" "0x3042" "0x3044"]
    parseDictTsv_value_end_trimmed [of "[0x3042]" "[]" nfc_stable 0
      "\<lparr>map1 = [[0x3042] \<mapsto> [88]], map2 = Map.empty\<rparr>" "[]" "[]" "[]" 0 0]
    parseDictTsv_value_end_trimmed [of "[0x3042]" "[SPACE]" nfc_stable 0
      "\<lparr>map1 = [[0x3042] \<mapsto> [88]], map2 = Map.empty\<rparr>" "[]" "[]" "[]" 0 0]
  by (simp add: parseDictTsv_def parse_line_def indexOf_def slice_def slice_from_def empty_dict_def
        trimEnd_def trim_def trimStart_def js_space_def startsWith_def nfc_stable_def
        HIRAGANA_RE_test_def)

text \<open>
  C8. Last write wins: when the lines of the text contain two lines \<open>l1\<close> and later
  \<open>l2\<close> that are entries for the same key \<open>k\<close> of the same map (each alone stores a
  value under \<open>k\<close>), and no line after \<open>l2\<close> is an entry for \<open>k\<close>, the table
  returned holds the value of \<open>l2\<close> under \<open>k\<close>. The parser is a total function: no
  line makes it fail.
\<close>

theorem parseDictTsv_last_write_wins:
  assumes "split_lines text = A @ l1 # B @ l2 # C"
  shows "(map1 (parse_line nfc l1 empty_dict) k = Some v1
          \<and> map1 (parse_line nfc l2 empty_dict) k = Some v2
          \<and> (\<forall>l \<in> set C. map1 (parse_line nfc l empty_dict) k = None)
          \<longrightarrow> map1 (parseDictTsv nfc text) k = Some v2)
       \<and> (map2 (parse_line nfc l1 empty_dict) k = Some v1
          \<and> map2 (parse_line nfc l2 empty_dict) k = Some v2
          \<and> (\<forall>l \<in> set C. map2 (parse_line nfc l empty_dict) k = None)
          \<longrightarrow> map2 (parseDictTsv nfc text) k = Some v2)"
proof -
  define d0 where "d0 = fold (parse_line nfc) (A @ l1 # B) empty_dict"
  have p: "parseDictTsv nfc text = fold (parse_line nfc) C (parse_line nfc l2 d0)"
    using assms by (simp add: parseDictTsv_def d0_def)
  show ?thesis
  proof (intro conjI impI)
    assume h: "map1 (parse_line nfc l1 empty_dict) k = Some v1
          \<and> map1 (parse_line nfc l2 empty_dict) k = Some v2
          \<and> (\<forall>l \<in> set C. map1 (parse_line nfc l empty_dict) k = None)"
    then have "map1 (parseDictTsv nfc text) k = map1 (parse_line nfc l2 d0) k"
      unfolding p by (intro fold_untouched1) simp
    also have "\<dots> = Some v2"
      using h by (simp add: parse_line_map1 [of nfc l2 d0 k])
    finally show "map1 (parseDictTsv nfc text) k = Some v2" .
  next
    assume h: "map2 (parse_line nfc l1 empty_dict) k = Some v1
          \<and> map2 (parse_line nfc l2 empty_dict) k = Some v2
          \<and> (\<forall>l \<in> set C. map2 (parse_line nfc l empty_dict) k = None)"
    then have "map2 (parseDictTsv nfc text) k = map2 (parse_line nfc l2 d0) k"
      unfolding p by (intro fold_untouched2) simp
    also have "\<dots> = Some v2"
      using h by (simp add: parse_line_map2 [of nfc l2 d0 k])
    finally show "map2 (parseDictTsv nfc text) k = Some v2" .
  qed
qed

theorem parseDictTsv_last_write_wins_witness:
  "split_lines [0x3042, TAB, 88, LF, HASH, LF, 0x3042, TAB, 89, CR, LF,
                0x3042, 0x3044, TAB, 80, LF, 0x3044, TAB, 81, LF, 0x3042, 0x3044, TAB, 82]
     = [] @ [0x3042, TAB, 88] # [[HASH]] @ [0x3042, TAB, 89] #
         [[0x3042, 0x3044, TAB, 80], [0x3044, TAB, 81], [0x3042, 0x3044, TAB, 82]]
   \<and> map1 (parse_line nfc_stable [0x3042, TAB, 88] empty_dict) [0x3042] = Some [88]
   \<and> map1 (parse_line nfc_stable [0x3042, TAB, 89] empty_dict) [0x3042] = Some [89]
   \<and> map1 (parse_line nfc_stable [0x3042, 0x3044, TAB, 80] empty_dict) [0x3042] = None
   \<and> map1 (parse_line nfc_stable [0x3044, TAB, 81] empty_dict) [0x3042] = None
   \<and> map1 (parse_line nfc_stable [0x3042, 0x3044, TAB, 82] empty_dict) [0x3042] = None
   \<and> map1 (parseDictTsv nfc_stable
        [0x3042, TAB, 88, LF, HASH, LF, 0x3042, TAB, 89, CR, LF,
         0x3042, 0x3044, TAB, 80, LF, 0x3044, TAB, 81, LF, 0x3042, 0x3044, TAB, 82]) [0x3042]
       = Some [89]
   \<and> split_lines [0x3042, 0x3044, TAB, 80, LF, 0x3042, 0x3044, TAB, 82]
     = [] @ [0x3042, 0x3044, TAB, 80] # [] @ [0x3042, 0x3044, TAB, 82] # []
   \<and> dict.map2 (parse_line nfc_stable [0x3042, 0x3044, TAB, 80] empty_dict) [0x3042, 0x3044] = Some [80]
   \<and> dict.map2 (parse_line nfc_stable [0x3042, 0x3044, TAB, 82] empty_dict) [0x3042, 0x3044] = Some [82]
   \<and> dict.map2 (parseDictTsv nfc_stable [0x3042, 0x3044, TAB, 80, LF, 0x3042, 0x3044, TAB, 82])
        [0x3042, 0x3044] = Some [82]"
  using parseDictTsv_last_write_wins [of
      "[0x3042, TAB, 88, LF, HASH, LF, 0x3042, TAB, 89, CR, LF,
        0x3042, 0x3044, TAB, 80, LF, 0x3044, TAB, 81, LF, 0x3042, 0x3044, TAB, 82]"
      "[]" "[0x3042, TAB, 88]" "[[HASH]]" "[0x3042, TAB, 89]"
      "[[0x3042, 0x3044, TAB, 80], [0x3044, TAB, 81], [0x3042, 0x3044, TAB, 82]]"
      nfc_stable "[0x3042]" "[88]" "[89]"]
    parseDictTsv_last_write_wins [of
      "[0x3042, 0x3044, TAB, 80, LF, 0x3042, 0x3044, TAB, 82]"
      "[]" "[0x3042, 0x3044, TAB, 80]" "[]" "[0x3042, 0x3044, TAB, 82]" "[]"
      nfc_stable "[0x3042, 0x3044]" "[80]" "[82]"]
  by (simp add: parse_line_def trimEnd_def trim_def trimStart_def
  js_space_def indexOf_def slice_def slice_from_def startsWith_def nfc_stable_def
  HIRAGANA_RE_test_def empty_dict_def)

text \<open>
  C9. In the table returned for any text, every key of \<^verbatim>\<open>map1\<close> is one hiragana
  symbol and every key of \<^verbatim>\<open>map2\<close> is two hiragana symbols. A line leaves the maps
  as they are when it is blank, starts with \<^verbatim>\<open>#\<close>, has no tab, or when its key part
  normalises to no symbol, to three or more symbols, or to symbols one of which is not
  hiragana.
\<close>

theorem parseDictTsv_keys_in_alphabet:
  "(\<forall>key \<in> dom (map1 (parseDictTsv nfc text)). \<exists>k. key = [k] \<and> HIRAGANA_RE_test k)
   \<and> (\<forall>key \<in> dom (map2 (parseDictTsv nfc text)).
         \<exists>k0 k1. key = [k0, k1] \<and> HIRAGANA_RE_test k0 \<and> HIRAGANA_RE_test k1)
   \<and> (trimEnd raw = [] \<longrightarrow> parse_line nfc raw d = d)
   \<and> (startsWith raw HASH \<longrightarrow> parse_line nfc raw d = d)
   \<and> (TAB \<notin> set raw \<longrightarrow> parse_line nfc raw d = d)
   \<and> (raw = kp @ TAB # v \<and> TAB \<notin> set kp
        \<and> (length (nfc (trim kp)) = 0 \<or> 3 \<le> length (nfc (trim kp))
            \<or> (\<exists>c \<in> set (nfc (trim kp)). \<not> HIRAGANA_RE_test c))
       \<longrightarrow> parse_line nfc raw d = d)"
proof -
  have ok: "table_ok (parseDictTsv nfc text)"
    unfolding parseDictTsv_def by (rule table_ok_fold [OF table_ok_empty])
  have bad_key: "parse_line nfc raw d = d"
    if h: "raw = kp @ TAB # v \<and> TAB \<notin> set kp
        \<and> (length (nfc (trim kp)) = 0 \<or> 3 \<le> length (nfc (trim kp))
            \<or> (\<exists>c \<in> set (nfc (trim kp)). \<not> HIRAGANA_RE_test c))"
  proof (cases "trimEnd v = []")
    case True
    then show ?thesis using h by (simp add: parse_line_blank_value)
  next
    case False
    let ?key = "nfc (trim kp)"
    have one: "\<not> HIRAGANA_RE_test (?key ! 0)" if "length ?key = 1"
    proof -
      have "set ?key = {?key ! 0}"
        using that by (cases ?key) simp_all
      then show ?thesis using h that by auto
    qed
    have two: "\<not> (HIRAGANA_RE_test (?key ! 0) \<and> HIRAGANA_RE_test (?key ! 1))" if l2: "length ?key = 2"
    proof -
      obtain a b where ab: "?key = [a, b]"
        using l2 by (auto simp add: length_Suc_conv numeral_2_eq_2)
      then show ?thesis using h by auto
    qed
    show ?thesis
    proof -
      have e: "parse_line nfc raw d = parse_line nfc (kp @ TAB # v) d" using h by simp
      have t: "TAB \<notin> set kp" using h by simp
      show ?thesis
        unfolding e parse_line_entry [OF t False]
        using one two h by auto
    qed
  qed
  show ?thesis
    using ok bad_key
    by (simp add: table_ok_def parse_line_blank parse_line_comment parse_line_no_tab)
qed

theorem parseDictTsv_keys_in_alphabet_witness:
  "[0x3042] \<in> dom (map1 (parseDictTsv nfc_stable
       [0x3042, TAB, 88, LF, SPACE, LF, HASH, 99, LF, 110, LF, 0x3042, 0x3044, 0x3046, TAB, 90, LF,
        65, TAB, 66, LF, 0x3042, 0x3044, TAB, 80]))
   \<and> [0x3042, 0x3044] \<in> dom (dict.map2 (parseDictTsv nfc_stable
       [0x3042, TAB, 88, LF, SPACE, LF, HASH, 99, LF, 110, LF, 0x3042, 0x3044, 0x3046, TAB, 90, LF,
        65, TAB, 66, LF, 0x3042, 0x3044, TAB, 80]))
   \<and> HIRAGANA_RE_test 0x3042 \<and> HIRAGANA_RE_test 0x3044
   \<and> trimEnd [SPACE] = [] \<and> parse_line nfc_stable [SPACE] empty_dict = empty_dict
   \<and> startsWith [HASH, 99] HASH \<and> parse_line nfc_stable [HASH, 99] empty_dict = empty_dict
   \<and> TAB \<notin> set [110] \<and> parse_line nfc_stable [110] empty_dict = empty_dict
   \<and> [0x3042, 0x3044, 0x3046, TAB, 90] = [0x3042, 0x3044, 0x3046] @ TAB # [90]
   \<and> TAB \<notin> set [0x3042, 0x3044, 0x3046]
   \<and> 3 \<le> length (nfc_stable (trim [0x3042, 0x3044, 0x3046]))
   \<and> parse_line nfc_stable [0x3042, 0x3044, 0x3046, TAB, 90] empty_dict = empty_dict
   \<and> [65, TAB, 66] = [65] @ TAB # [66] \<and> TAB \<notin> set [65]
   \<and> \<not> HIRAGANA_RE_test 65 \<and> 65 \<in> set (nfc_stable (trim [65]))
   \<and> parse_line nfc_stable [65, TAB, 66] empty_dict = empty_dict"
  using parseDictTsv_keys_in_alphabet [of nfc_stable
      "[0x3042, TAB, 88, LF, SPACE, LF, HASH, 99, LF, 110, LF, 0x3042, 0x3044, 0x3046, TAB, 90, LF,
        65, TAB, 66, LF, 0x3042, 0x3044, TAB, 80]" "[SPACE]" empty_dict "[]" "[]"]
    parseDictTsv_keys_in_alphabet [of nfc_stable "[]" "[HASH, 99]" empty_dict "[]" "[]"]
    parseDictTsv_keys_in_alphabet [of nfc_stable "[]" "[110]" empty_dict "[]" "[]"]
    parseDictTsv_keys_in_alphabet [of nfc_stable "[]" "[0x3042, 0x3044, 0x3046, TAB, 90]" empty_dict
      "[0x3042, 0x3044, 0x3046]" "[90]"]
    parseDictTsv_keys_in_alphabet [of nfc_stable "[]" "[65, TAB, 66]" empty_dict "[65]" "[66]"]
  by (simp add: parseDictTsv_def parse_line_def trimEnd_def trim_def trimStart_def
  js_space_def indexOf_def slice_def slice_from_def startsWith_def nfc_stable_def
  HIRAGANA_RE_test_def empty_dict_def)

end
